theory Spec2Isabelle
  imports Complex_Main "HOL-Library.Multiset"
begin

section \<open>Data model\<close>

text \<open>
  The tables of \<^verbatim>\<open>gavel/models\<close> as records. Only the columns that the judging
  controller reads or writes are kept. A relationship is stored the way the schema stores
  it: \<^verbatim>\<open>Annotator.next\<close> and \<^verbatim>\<open>Annotator.prev\<close> as the foreign keys
  \<^verbatim>\<open>next_id\<close> and \<^verbatim>\<open>prev_id\<close>, the many-to-many collections
  \<^verbatim>\<open>Annotator.ignore\<close> and \<^verbatim>\<open>Applicant.viewed\<close> as lists of ids in
  append order (duplicates are possible, as in the association tables, which have no key).
  The \<^verbatim>\<open>Float\<close> columns are real numbers, a \<^verbatim>\<open>DateTime\<close> is its number of
  microseconds since the epoch.
\<close>

datatype error = AttributeError | BadRequestKeyError | ValueError | TypeError | UnboundLocalError

record applicant =
  ap_id :: int
  ap_active :: bool
  viewed :: "int list"
  prioritized :: bool
  mu :: real
  sigma_sq :: real

record annotator =
  an_id :: int
  an_active :: bool
  next_id :: "int option"
  updated :: "int option"
  prev_id :: "int option"
  ignore :: "int list"
  alpha :: real
  beta :: real

text \<open>
  \<^verbatim>\<open>Decision(annotator, winner=..., loser=...)\<close>: the class itself is not among the
  sources, the record keeps the three references its constructor is given.
\<close>

record decision =
  d_annotator :: int
  winner :: int
  loser :: int

record db =
  applicants :: "applicant list"
  annotators :: "annotator list"
  decisions :: "decision list"

text \<open>
  \<^verbatim>\<open>gavel.settings\<close> is not among the sources: the two options that the
  controller reads are parameters.
\<close>

record settings =
  TIMEOUT :: real
  MIN_VIEWS :: int

section \<open>Candidate pool\<close>

text \<open>
  \<^verbatim>\<open>(datetime.utcnow() - a.updated).total_seconds() < settings.TIMEOUT * 60\<close>,
  with the clock reading \<open>now\<close> an input. It yields \<^verbatim>\<open>a.next.id\<close> when the
  annotator is within the window; the foreign key \<^verbatim>\<open>next_id\<close> is that id.
\<close>

definition busy_next :: "settings \<Rightarrow> int \<Rightarrow> annotator \<Rightarrow> int option" where
  "busy_next cfg now a =
     (case updated a of
        None \<Rightarrow> None
      | Some u \<Rightarrow>
          if real_of_int (now - u) / 1000000 < TIMEOUT cfg * 60 then next_id a else None)"

definition preferred_applicants :: "settings \<Rightarrow> int \<Rightarrow> db \<Rightarrow> annotator \<Rightarrow> applicant list" where
  "preferred_applicants cfg now s annotator =
     (let ignored_ids = set (ignore annotator);
          available_applicants =
            (if ignored_ids \<noteq> {}
             then filter (\<lambda>a. ap_active a \<and> ap_id a \<notin> ignored_ids) (applicants s)
             else filter ap_active (applicants s));
          prioritized_applicants = filter prioritized available_applicants;
          applicants' =
            (if prioritized_applicants \<noteq> [] then prioritized_applicants
             else available_applicants);
          annotators' =
            filter (\<lambda>a. an_active a \<and> next_id a \<noteq> None \<and> updated a \<noteq> None) (annotators s);
          busy = set (List.map_filter (busy_next cfg now) annotators');
          nonbusy = filter (\<lambda>a. ap_id a \<notin> busy) applicants';
          preferred = (if nonbusy \<noteq> [] then nonbusy else applicants');
          less_seen = filter (\<lambda>a. int (length (viewed a)) < MIN_VIEWS cfg) preferred
      in if less_seen \<noteq> [] then less_seen else preferred)"

subsection \<open>The pipeline in the words of the specification\<close>

text \<open>
  An annotator is within the freshness window when its \<^verbatim>\<open>updated\<close> is less than
  \<^verbatim>\<open>TIMEOUT\<close> minutes old.
\<close>

definition within_timeout :: "settings \<Rightarrow> int \<Rightarrow> annotator \<Rightarrow> bool" where
  "within_timeout cfg now a =
     (case updated a of
        None \<Rightarrow> False
      | Some u \<Rightarrow> real_of_int (now - u) / 60000000 < TIMEOUT cfg)"

text \<open>
  Each step with a fallback keeps the filtered list unless it is empty.
\<close>

definition or_else :: "'a list \<Rightarrow> 'a list \<Rightarrow> 'a list" where
  "or_else xs ys = (if xs = [] then ys else xs)"

text \<open>
  The four steps, for a given set of busy item ids: active and not ignored; only the
  prioritized ones if there are any; without the busy ones unless none is left; only the
  ones seen by fewer than \<^verbatim>\<open>MIN_VIEWS\<close> judges unless none is left.
\<close>

definition pool_steps :: "settings \<Rightarrow> int set \<Rightarrow> db \<Rightarrow> annotator \<Rightarrow> applicant list" where
  "pool_steps cfg busy s j =
     (let step1 = filter (\<lambda>a. ap_active a \<and> ap_id a \<notin> set (ignore j)) (applicants s);
          step2 = or_else (filter prioritized step1) step1;
          step3 = or_else (filter (\<lambda>a. ap_id a \<notin> busy) step2) step2
      in or_else (filter (\<lambda>a. int (length (viewed a)) < MIN_VIEWS cfg) step3) step3)"

text \<open>
  Busy as the specification words it: assigned as next to some other active judge whose
  \<^verbatim>\<open>updatedAt\<close> is within the window.
\<close>

definition busy_other :: "settings \<Rightarrow> int \<Rightarrow> db \<Rightarrow> annotator \<Rightarrow> int set" where
  "busy_other cfg now s j =
     set (List.map_filter next_id
       (filter (\<lambda>a. an_id a \<noteq> an_id j \<and> an_active a \<and> within_timeout cfg now a)
          (annotators s)))"

text \<open>
  The set that the source builds: the same over every active judge, with no judge left
  out.
\<close>

definition busy_any :: "settings \<Rightarrow> int \<Rightarrow> db \<Rightarrow> int set" where
  "busy_any cfg now s =
     set (List.map_filter next_id
       (filter (\<lambda>a. an_active a \<and> within_timeout cfg now a) (annotators s)))"

definition candidate_pool_spec :: "settings \<Rightarrow> int \<Rightarrow> db \<Rightarrow> annotator \<Rightarrow> applicant list" where
  "candidate_pool_spec cfg now s j = pool_steps cfg (busy_other cfg now s j) s j"

section \<open>Rows, references and writes\<close>

text \<open>
  \<^verbatim>\<open>Applicant.by_id\<close> and \<^verbatim>\<open>Annotator.by_id\<close>: the row with the given
  primary key, or none; \<^verbatim>\<open>by_id(None)\<close> is none.
\<close>

definition Applicant_by_id :: "db \<Rightarrow> int option \<Rightarrow> applicant option" where
  "Applicant_by_id s uid =
     (case uid of None \<Rightarrow> None | Some i \<Rightarrow> find (\<lambda>a. ap_id a = i) (applicants s))"

definition Annotator_by_id :: "db \<Rightarrow> int option \<Rightarrow> annotator option" where
  "Annotator_by_id s uid =
     (case uid of None \<Rightarrow> None | Some i \<Rightarrow> find (\<lambda>a. an_id a = i) (annotators s))"

text \<open>
  \<^verbatim>\<open>get_current_annotator\<close>: \<open>uid\<close> is what the session holds under
  \<^verbatim>\<open>ANNOTATOR_ID\<close>, if anything.
\<close>

definition get_current_annotator :: "db \<Rightarrow> int option \<Rightarrow> annotator option" where
  "get_current_annotator s uid = Annotator_by_id s uid"

text \<open>
  The relationship attributes \<^verbatim>\<open>annotator.next\<close> and \<^verbatim>\<open>annotator.prev\<close>:
  the applicant that the foreign key refers to, none when the key is null.
\<close>

definition next_of :: "db \<Rightarrow> annotator \<Rightarrow> applicant option" where
  "next_of s a = Applicant_by_id s (next_id a)"

definition prev_of :: "db \<Rightarrow> annotator \<Rightarrow> applicant option" where
  "prev_of s a = Applicant_by_id s (prev_id a)"

text \<open>
  An attribute assignment on an applicant object changes the row of that id; the
  annotator object of a transaction is written back to its row after each change, as
  the session's flush before the next query does.
\<close>

definition modify_applicant :: "int \<Rightarrow> (applicant \<Rightarrow> applicant) \<Rightarrow> db \<Rightarrow> db" where
  "modify_applicant i f s =
     s\<lparr>applicants := map (\<lambda>a. if ap_id a = i then f a else a) (applicants s)\<rparr>"

definition save_annotator :: "annotator \<Rightarrow> db \<Rightarrow> db" where
  "save_annotator a s =
     s\<lparr>annotators := map (\<lambda>x. if an_id x = an_id a then a else x) (annotators s)\<rparr>"

section \<open>Assignment\<close>

text \<open>\<^verbatim>\<open>Annotator.update_next\<close>, with the clock reading \<open>now\<close>.\<close>

definition update_next :: "int \<Rightarrow> annotator \<Rightarrow> applicant option \<Rightarrow> db \<Rightarrow> db" where
  "update_next now self new_next s =
     (case new_next of
        None \<Rightarrow> save_annotator (self\<lparr>next_id := None\<rparr>) s
      | Some n \<Rightarrow>
          save_annotator (self\<lparr>next_id := Some (ap_id n), updated := Some now\<rparr>)
            (modify_applicant (ap_id n) (\<lambda>b. b\<lparr>prioritized := False\<rparr>) s))"

text \<open>
  \<^verbatim>\<open>gavel.crowd_bt\<close> is not among the sources. Its constant
  \<^verbatim>\<open>EPSILON\<close> and its functions \<^verbatim>\<open>update\<close> and
  \<^verbatim>\<open>expected_information_gain\<close> are parameters.
\<close>

record crowd_bt =
  EPSILON :: real
  update :: "real \<Rightarrow> real \<Rightarrow> real \<Rightarrow> real \<Rightarrow> real \<Rightarrow> real
                \<Rightarrow> real \<times> real \<times> real \<times> real \<times> real \<times> real"
  expected_information_gain :: "real \<Rightarrow> real \<Rightarrow> real \<Rightarrow> real \<Rightarrow> real \<Rightarrow> real \<Rightarrow> real"

text \<open>
  Modelled from the spec: \<^verbatim>\<open>crowd_bt.argmax\<close> is missing from the sources. The
  specification has the selector return the candidate that maximizes the score, ties
  broken by the order of the list: the first element whose score no other element
  exceeds. On an empty list there is nothing to return.
\<close>

fun argmax_from :: "('a \<Rightarrow> real) \<Rightarrow> 'a \<Rightarrow> 'a list \<Rightarrow> 'a" where
  "argmax_from f b [] = b"
| "argmax_from f b (a # xs) = argmax_from f (if f b < f a then a else b) xs"

fun argmax :: "('a \<Rightarrow> real) \<Rightarrow> 'a list \<Rightarrow> 'a option" where
  "argmax f [] = None"
| "argmax f (x # xs) = Some (argmax_from f x xs)"

text \<open>
  The calls into \<^verbatim>\<open>numpy.random\<close> of one transaction: \<^verbatim>\<open>shuffle\<close> as the
  rearrangement it makes of a list, \<^verbatim>\<open>random()\<close> as the number drawn,
  \<^verbatim>\<open>choice\<close> as the element it picks from a list.
\<close>

record rnd =
  rnd_shuffle :: "applicant list \<Rightarrow> applicant list"
  rnd_random :: real
  rnd_choice :: "applicant list \<Rightarrow> applicant"

definition choose_next ::
  "settings \<Rightarrow> crowd_bt \<Rightarrow> rnd \<Rightarrow> int \<Rightarrow> db \<Rightarrow> annotator \<Rightarrow> error + applicant option" where
  "choose_next cfg cbt r now s annotator =
     (case rnd_shuffle r (preferred_applicants cfg now s annotator) of
        [] \<Rightarrow> Inr None
      | first # rest \<Rightarrow>
          if rnd_random r < EPSILON cbt then Inr (Some first)
          else
            (case prev_of s annotator of
               None \<Rightarrow> Inl AttributeError
             | Some p \<Rightarrow>
                 (case argmax
                         (\<lambda>a. expected_information_gain cbt (alpha annotator) (beta annotator)
                                 (mu p) (sigma_sq p) (mu a) (sigma_sq a))
                         (first # rest) of
                    None \<Rightarrow> Inl ValueError
                  | Some a \<Rightarrow> Inr (Some a))))"

text \<open>
  \<^verbatim>\<open>perform_vote\<close>: the annotator object with its new belief, and the store with
  the rows of the annotator, the winner and the loser written in the order of the
  source.
\<close>

definition perform_vote :: "crowd_bt \<Rightarrow> annotator \<Rightarrow> bool \<Rightarrow> db \<Rightarrow> error + annotator \<times> db" where
  "perform_vote cbt annotator next_won s =
     (case next_of s annotator of
        None \<Rightarrow> Inl AttributeError
      | Some n \<Rightarrow>
          (case prev_of s annotator of
             None \<Rightarrow> Inl AttributeError
           | Some p \<Rightarrow>
               (let winner = (if next_won then n else p);
                    loser = (if next_won then p else n)
                in case update cbt (alpha annotator) (beta annotator)
                          (mu winner) (sigma_sq winner) (mu loser) (sigma_sq loser) of
                     (u_alpha, u_beta, u_winner_mu, u_winner_sigma_sq, u_loser_mu, u_loser_sigma_sq) \<Rightarrow>
                       (let annotator' = annotator\<lparr>alpha := u_alpha, beta := u_beta\<rparr>
                        in Inr (annotator',
                             modify_applicant (ap_id loser)
                               (\<lambda>b. b\<lparr>mu := u_loser_mu, sigma_sq := u_loser_sigma_sq\<rparr>)
                               (modify_applicant (ap_id winner)
                                 (\<lambda>b. b\<lparr>mu := u_winner_mu, sigma_sq := u_winner_sigma_sq\<rparr>)
                                 (save_annotator annotator' s)))))))"

section \<open>Submitted forms\<close>

text \<open>
  A field of \<^verbatim>\<open>request.form\<close> as far as the controller looks at it: missing, the
  empty string, a non-empty string that \<^verbatim>\<open>int\<close> rejects, or a string that
  \<^verbatim>\<open>int\<close> reads as a number.
\<close>

datatype field = Missing | Empty | NotInt | IntText int

record form =
  f_prev_id :: field
  f_next_id :: field
  f_applicant_id :: field
  f_item_id :: field
  f_action :: "string option"

text \<open>\<^verbatim>\<open>int(request.form[key])\<close>: a missing key is a bad request.\<close>

fun int_of_item :: "field \<Rightarrow> error + int" where
  "int_of_item Missing = Inl BadRequestKeyError"
| "int_of_item Empty = Inl ValueError"
| "int_of_item NotInt = Inl ValueError"
| "int_of_item (IntText i) = Inr i"

text \<open>
  \<^verbatim>\<open>request.form.get(k1) or request.form.get(k2)\<close>: the second value when the
  first is missing or empty; \<^verbatim>\<open>int\<close> of the result, where \<^verbatim>\<open>int(None)\<close> is
  a type error.
\<close>

fun get_or :: "field \<Rightarrow> field \<Rightarrow> field" where
  "get_or Missing g = g"
| "get_or Empty g = g"
| "get_or f g = f"

fun int_of_get :: "field \<Rightarrow> error + int" where
  "int_of_get Missing = Inl TypeError"
| "int_of_get Empty = Inl ValueError"
| "int_of_get NotInt = Inl ValueError"
| "int_of_get (IntText i) = Inr i"

section \<open>Transitions\<close>

text \<open>
  The transaction of each route, run once: \<^verbatim>\<open>with_retries\<close> is not among the
  sources and repeats a transaction only after a write conflict, which a single run
  does not have. A transaction that raises commits nothing and is the error.
  \<open>begin_tx\<close> is the transaction of the route \<^verbatim>\<open>begin\<close>. The
  decorators of the routes redirect before the transaction starts. One clock reading
  \<open>now\<close> stands for the readings of the transaction.
\<close>

definition vote :: "settings \<Rightarrow> crowd_bt \<Rightarrow> rnd \<Rightarrow> int \<Rightarrow> form \<Rightarrow> int option \<Rightarrow> db \<Rightarrow> error + db" where
  "vote cfg cbt r now frm uid s =
     (case get_current_annotator s uid of
        None \<Rightarrow> Inl AttributeError
      | Some annotator \<Rightarrow>
     (case prev_of s annotator of
        None \<Rightarrow> Inl AttributeError
      | Some p \<Rightarrow>
     (case int_of_item (f_prev_id frm) of
        Inl e \<Rightarrow> Inl e
      | Inr claimed_prev \<Rightarrow>
     if ap_id p \<noteq> claimed_prev then Inr s
     else
     (case next_of s annotator of
        None \<Rightarrow> Inl AttributeError
      | Some n \<Rightarrow>
     (case int_of_item (f_next_id frm) of
        Inl e \<Rightarrow> Inl e
      | Inr claimed_next \<Rightarrow>
     if ap_id n \<noteq> claimed_next then Inr s
     else
     (case f_action frm of
        None \<Rightarrow> Inl BadRequestKeyError
      | Some action \<Rightarrow>
     (case
        (if action = ''Skip''
         then
           (let annotator1 = annotator\<lparr>ignore := ignore annotator @ [ap_id n]\<rparr>
            in Inr (annotator1, save_annotator annotator1 s))
         else
           (case
              (if ap_active p \<and> ap_active n
               then
                 (if action = ''Previous''
                  then
                    (case perform_vote cbt annotator False s of
                       Inl e \<Rightarrow> Inl e
                     | Inr (annotator1, s1) \<Rightarrow>
                         Inr (annotator1,
                           s1\<lparr>decisions := decisions s1 @
                             [\<lparr>d_annotator = an_id annotator, winner = ap_id p, loser = ap_id n\<rparr>]\<rparr>))
                  else if action = ''Current''
                  then
                    (case perform_vote cbt annotator True s of
                       Inl e \<Rightarrow> Inl e
                     | Inr (annotator1, s1) \<Rightarrow>
                         Inr (annotator1,
                           s1\<lparr>decisions := decisions s1 @
                             [\<lparr>d_annotator = an_id annotator, winner = ap_id n, loser = ap_id p\<rparr>]\<rparr>))
                  else Inl UnboundLocalError)
               else Inr (annotator, s)) of
              Inl e \<Rightarrow> Inl e
            | Inr (annotator1, s1) \<Rightarrow>
                (let s2 = modify_applicant (ap_id n)
                            (\<lambda>b. b\<lparr>viewed := viewed b @ [an_id annotator]\<rparr>) s1;
                     annotator2 = annotator1\<lparr>prev_id := next_id annotator1\<rparr>;
                     annotator3 = annotator2\<lparr>ignore := ignore annotator2 @ [ap_id n]\<rparr>
                 in Inr (annotator3, save_annotator annotator3 s2)))) of
        Inl e \<Rightarrow> Inl e
      | Inr (annotator', s') \<Rightarrow>
          (case choose_next cfg cbt r now s' annotator' of
             Inl e \<Rightarrow> Inl e
           | Inr new_next \<Rightarrow> Inr (update_next now annotator' new_next s')))))))))"

definition begin_tx :: "settings \<Rightarrow> crowd_bt \<Rightarrow> rnd \<Rightarrow> int \<Rightarrow> form \<Rightarrow> int option \<Rightarrow> db \<Rightarrow> error + db" where
  "begin_tx cfg cbt r now frm uid s =
     (case get_current_annotator s uid of
        None \<Rightarrow> Inl AttributeError
      | Some annotator \<Rightarrow>
     (let applicant_id = get_or (f_applicant_id frm) (f_item_id frm)
      in
     (case next_of s annotator of
        None \<Rightarrow> Inl AttributeError
      | Some n \<Rightarrow>
     (case int_of_get applicant_id of
        Inl e \<Rightarrow> Inl e
      | Inr claimed \<Rightarrow>
     if ap_id n \<noteq> claimed then Inr s
     else
     (let annotator1 = annotator\<lparr>ignore := ignore annotator @ [ap_id n]\<rparr>;
          s1 = save_annotator annotator1 s
      in
     (case f_action frm of
        None \<Rightarrow> Inl BadRequestKeyError
      | Some action \<Rightarrow>
     if action = ''Continue''
     then
       (let s2 = modify_applicant (ap_id n)
                   (\<lambda>b. b\<lparr>viewed := viewed b @ [an_id annotator]\<rparr>) s1;
            annotator2 = annotator1\<lparr>prev_id := next_id annotator1\<rparr>;
            s3 = save_annotator annotator2 s2
        in case choose_next cfg cbt r now s3 annotator2 of
             Inl e \<Rightarrow> Inl e
           | Inr new_next \<Rightarrow> Inr (update_next now annotator2 new_next s3))
     else if action = ''Skip''
     then Inr (save_annotator (annotator1\<lparr>next_id := None\<rparr>) s1)
     else Inr s1))))))"

definition maybe_init_annotator :: "settings \<Rightarrow> rnd \<Rightarrow> int \<Rightarrow> int option \<Rightarrow> db \<Rightarrow> error + db" where
  "maybe_init_annotator cfg r now uid s =
     (case get_current_annotator s uid of
        None \<Rightarrow> Inl AttributeError
      | Some annotator \<Rightarrow>
          if next_of s annotator = None
          then
            (let applicants' = preferred_applicants cfg now s annotator
             in if applicants' \<noteq> []
                then Inr (update_next now annotator (Some (rnd_choice r applicants')) s)
                else Inr s)
          else Inr s)"

section \<open>Example states\<close>

text \<open>
  Two applicants and a judge who has just been given the first of them: the state
  after the first visit of a new judge. Times are in microseconds.
\<close>

definition cfg0 :: settings where
  "cfg0 = \<lparr>TIMEOUT = 5, MIN_VIEWS = 2\<rparr>"

definition apX :: applicant where
  "apX = \<lparr>ap_id = 10, ap_active = True, viewed = [], prioritized = False, mu = 0, sigma_sq = 1\<rparr>"

definition apY :: applicant where
  "apY = \<lparr>ap_id = 20, ap_active = True, viewed = [], prioritized = False, mu = 0, sigma_sq = 1\<rparr>"

definition judge_begin :: annotator where
  "judge_begin = \<lparr>an_id = 1, an_active = True, next_id = Some 10, updated = Some 0,
     prev_id = None, ignore = [], alpha = 1, beta = 1\<rparr>"

definition db_begin :: db where
  "db_begin = \<lparr>applicants = [apX, apY], annotators = [judge_begin], decisions = []\<rparr>"

text \<open>
  A third applicant, prioritized, and a judge who has no assignment yet.
\<close>

definition apP :: applicant where
  "apP = \<lparr>ap_id = 30, ap_active = True, viewed = [], prioritized = True, mu = 0, sigma_sq = 1\<rparr>"

definition judge_new :: annotator where
  "judge_new = \<lparr>an_id = 1, an_active = True, next_id = None, updated = None,
     prev_id = None, ignore = [], alpha = 1, beta = 1\<rparr>"

definition db_new :: db where
  "db_new = \<lparr>applicants = [apX, apY, apP], annotators = [judge_new], decisions = []\<rparr>"

text \<open>
  Two more applicants, and a judge in the middle of judging: applicant 10 was seen and is
  ignored, applicant 20 is shown next.
\<close>

definition apZ :: applicant where
  "apZ = \<lparr>ap_id = 40, ap_active = True, viewed = [], prioritized = False, mu = 1, sigma_sq = 1\<rparr>"

definition apW :: applicant where
  "apW = \<lparr>ap_id = 50, ap_active = True, viewed = [], prioritized = False, mu = 0, sigma_sq = 1\<rparr>"

definition judge_steady :: annotator where
  "judge_steady = \<lparr>an_id = 1, an_active = True, next_id = Some 20, updated = Some 0,
     prev_id = Some 10, ignore = [10], alpha = 1, beta = 1\<rparr>"

definition db_steady :: db where
  "db_steady = \<lparr>applicants = [apX, apY, apZ, apW], annotators = [judge_steady], decisions = []\<rparr>"

text \<open>
  Stand-ins for the parameters: an exploration rate of a quarter, a score that is the
  mean of the candidate, an update that halves the variances; a shuffle that reverses the
  list, a draw of one half, a choice of the first element.
\<close>

definition cbt0 :: crowd_bt where
  "cbt0 = \<lparr>EPSILON = 1 / 4,
     update = (\<lambda>a b m1 s1 m2 s2. (a + 1, b, m1 + s1 / 2, s1 / 2, m2 - s2 / 2, s2 / 2)),
     expected_information_gain = (\<lambda>a b m1 s1 m2 s2. m2)\<rparr>"

definition rnd0 :: rnd where
  "rnd0 = \<lparr>rnd_shuffle = rev, rnd_random = 1 / 2, rnd_choice = hd\<rparr>"

text \<open>The same random source with a draw of one eighth, below the exploration rate.\<close>

definition rnd_explore :: rnd where
  "rnd_explore = \<lparr>rnd_shuffle = rev, rnd_random = 1 / 8, rnd_choice = hd\<rparr>"

text \<open>
  A vote form that echoes the right previous item and a wrong next item.
\<close>

definition form_stale :: form where
  "form_stale = \<lparr>f_prev_id = IntText 10, f_next_id = IntText 40, f_applicant_id = Missing,
     f_item_id = Missing, f_action = Some ''Current''\<rparr>"

text \<open>
  The same judge after a vote has moved applicant 20 to the previous slot and to the
  ignore list, before the next item is chosen.
\<close>

definition judge_voted :: annotator where
  "judge_voted = \<lparr>an_id = 1, an_active = True, next_id = Some 20, updated = Some 0,
     prev_id = Some 20, ignore = [10, 20], alpha = 1, beta = 1\<rparr>"

definition db_voted :: db where
  "db_voted = \<lparr>applicants = [apX, apY, apZ, apW], annotators = [judge_voted], decisions = []\<rparr>"

text \<open>
  The judge in the middle of judging when applicant 20 has been deactivated, a vote form
  that echoes both items, and the state after that vote: applicant 20 seen and ignored,
  applicant 40 assigned, no decision.
\<close>

definition apY_off :: applicant where
  "apY_off = \<lparr>ap_id = 20, ap_active = False, viewed = [], prioritized = False, mu = 0, sigma_sq = 1\<rparr>"

definition db_deactivated :: db where
  "db_deactivated = \<lparr>applicants = [apX, apY_off, apZ, apW], annotators = [judge_steady],
     decisions = []\<rparr>"

definition form_current :: form where
  "form_current = \<lparr>f_prev_id = IntText 10, f_next_id = IntText 20, f_applicant_id = Missing,
     f_item_id = Missing, f_action = Some ''Current''\<rparr>"

definition db_after_vote :: db where
  "db_after_vote = \<lparr>applicants = [apX, apY_off\<lparr>viewed := [1]\<rparr>, apZ, apW],
     annotators = [judge_steady\<lparr>next_id := Some 40, updated := Some 1000000,
                     prev_id := Some 20, ignore := [10, 20]\<rparr>],
     decisions = []\<rparr>"

text \<open>
  Two forms for the first item of a judge, and the states after them: after
  \<^verbatim>\<open>Continue\<close>, before the next item is chosen and at the end, and after
  \<^verbatim>\<open>Skip\<close>.
\<close>

definition form_continue :: form where
  "form_continue = \<lparr>f_prev_id = Missing, f_next_id = Missing, f_applicant_id = IntText 10,
     f_item_id = Missing, f_action = Some ''Continue''\<rparr>"

definition form_skip :: form where
  "form_skip = \<lparr>f_prev_id = Missing, f_next_id = Missing, f_applicant_id = Empty,
     f_item_id = IntText 10, f_action = Some ''Skip''\<rparr>"

definition db_after_continue :: db where
  "db_after_continue = \<lparr>applicants = [apX\<lparr>viewed := [1]\<rparr>, apY],
     annotators = [judge_begin\<lparr>next_id := Some 20, updated := Some 1000000,
                     prev_id := Some 10, ignore := [10]\<rparr>],
     decisions = []\<rparr>"

definition db_after_skip :: db where
  "db_after_skip = \<lparr>applicants = [apX, apY],
     annotators = [judge_begin\<lparr>next_id := None, ignore := [10]\<rparr>],
     decisions = []\<rparr>"

definition db_seen :: db where
  "db_seen = \<lparr>applicants = [apX\<lparr>viewed := [1]\<rparr>, apY],
     annotators = [judge_begin\<lparr>prev_id := Some 10, ignore := [10]\<rparr>], decisions = []\<rparr>"

text \<open>
  A second judge, who was given applicant 40 a second ago, beside the judge who has just
  voted.
\<close>

definition judge_other :: annotator where
  "judge_other = \<lparr>an_id = 2, an_active = True, next_id = Some 40, updated = Some 0,
     prev_id = None, ignore = [], alpha = 1, beta = 1\<rparr>"

definition db_two :: db where
  "db_two = \<lparr>applicants = [apX, apY, apZ, apW], annotators = [judge_voted, judge_other],
     decisions = []\<rparr>"

section \<open>Properties of the candidate pool\<close>

lemma set_map_filter_iff:
  "y \<in> set (List.map_filter f xs) \<longleftrightarrow> (\<exists>x \<in> set xs. f x = Some y)"
  by (induction xs) (auto split: option.splits)

lemma fresh_iff:
  "(an_active a \<and> (\<exists>i. next_id a = Some i) \<and> (\<exists>u. updated a = Some u) \<and> busy_next cfg now a = Some y)
   \<longleftrightarrow> (an_active a \<and> within_timeout cfg now a \<and> next_id a = Some y)"
  by (cases "updated a") (auto simp: busy_next_def within_timeout_def field_simps)

lemma busy_eq:
  "set (List.map_filter (busy_next cfg now)
       (filter (\<lambda>a. an_active a \<and> next_id a \<noteq> None \<and> updated a \<noteq> None) (annotators s)))
   = busy_any cfg now s"
  by (rule set_eqI) (simp add: busy_any_def set_map_filter_iff fresh_iff)

lemma if_or_else: "(if xs \<noteq> [] then xs else ys) = or_else xs ys"
  by (simp add: or_else_def)

lemma available_eq:
  "(if set (ignore j) \<noteq> {}
    then filter (\<lambda>a. ap_active a \<and> ap_id a \<notin> set (ignore j)) (applicants s)
    else filter ap_active (applicants s))
   = filter (\<lambda>a. ap_active a \<and> ap_id a \<notin> set (ignore j)) (applicants s)"
  by simp

lemma preferred_applicants_steps:
  "preferred_applicants cfg now s j = pool_steps cfg (busy_any cfg now s) s j"
  unfolding preferred_applicants_def pool_steps_def Let_def busy_eq if_or_else available_eq ..

lemma or_else_filter_subset: "set (or_else (filter P xs) xs) \<subseteq> set xs"
  by (auto simp: or_else_def)

lemma or_else_filter_Nil: "or_else (filter P xs) xs = [] \<longleftrightarrow> xs = []"
  by (auto simp: or_else_def)

lemma pool_steps_subset:
  "set (pool_steps cfg busy s j)
     \<subseteq> set (filter (\<lambda>a. ap_active a \<and> ap_id a \<notin> set (ignore j)) (applicants s))"
  unfolding pool_steps_def Let_def
  by (blast intro: subsetD [OF or_else_filter_subset])

lemma pool_steps_Nil:
  "pool_steps cfg busy s j = []
     \<longleftrightarrow> filter (\<lambda>a. ap_active a \<and> ap_id a \<notin> set (ignore j)) (applicants s) = []"
  unfolding pool_steps_def Let_def or_else_filter_Nil ..

lemma pool_steps_busy_cong:
  assumes "\<And>a. a \<in> set (applicants s) \<Longrightarrow> ap_id a \<notin> set (ignore j)
             \<Longrightarrow> ap_id a \<in> B \<longleftrightarrow> ap_id a \<in> B'"
  shows "pool_steps cfg B s j = pool_steps cfg B' s j"
proof -
  define step1 where "step1 = filter (\<lambda>a. ap_active a \<and> ap_id a \<notin> set (ignore j)) (applicants s)"
  define step2 where "step2 = or_else (filter prioritized step1) step1"
  have sub: "set step2 \<subseteq> set step1"
    unfolding step2_def by (rule or_else_filter_subset)
  have "filter (\<lambda>a. ap_id a \<notin> B) step2 = filter (\<lambda>a. ap_id a \<notin> B') step2"
  proof (rule filter_cong [OF refl])
    fix a assume "a \<in> set step2"
    with sub have "a \<in> set step1" by blast
    then have "a \<in> set (applicants s)" and "ap_id a \<notin> set (ignore j)"
      by (simp_all add: step1_def)
    then show "(ap_id a \<notin> B) = (ap_id a \<notin> B')" by (simp add: assms)
  qed
  then show ?thesis
    unfolding pool_steps_def Let_def step1_def [symmetric] step2_def [symmetric] by simp
qed

lemma busy_any_iff:
  "i \<in> busy_any cfg now s \<longleftrightarrow>
     i \<in> busy_other cfg now s j
     \<or> (\<exists>a \<in> set (annotators s). an_id a = an_id j \<and> an_active a
            \<and> within_timeout cfg now a \<and> next_id a = Some i)"
  unfolding busy_other_def busy_any_def set_map_filter_iff by auto

text \<open>
  The pool of the source is the pipeline of the specification whenever the next item of
  the judge, if there is one, is in the judge's ignore list or is no applicant row.
\<close>

lemma pipeline_when_own_next_out:
  assumes "\<forall>a \<in> set (annotators s). an_id a = an_id j \<longrightarrow>
             (\<forall>i. next_id a = Some i \<longrightarrow>
                i \<in> set (ignore j) \<or> i \<notin> ap_id ` set (applicants s))"
  shows "preferred_applicants cfg now s j = candidate_pool_spec cfg now s j"
  unfolding candidate_pool_spec_def preferred_applicants_steps
proof (rule pool_steps_busy_cong)
  fix a assume "a \<in> set (applicants s)" and "ap_id a \<notin> set (ignore j)"
  with assms show "ap_id a \<in> busy_any cfg now s \<longleftrightarrow> ap_id a \<in> busy_other cfg now s j"
    unfolding busy_any_iff [of _ cfg now s j] by blast
qed

lemma primary_key_row:
  assumes "distinct (map an_id (annotators s))"
    and "Annotator_by_id s uid = Some j" and "a \<in> set (annotators s)" and "an_id a = an_id j"
  shows "a = j"
proof -
  from assms(2) have "j \<in> set (annotators s)"
    by (cases uid) (auto simp: Annotator_by_id_def find_Some_iff)
  moreover from assms(1) have "inj_on an_id (set (annotators s))"
    by (simp add: distinct_map)
  ultimately show ?thesis
    using assms(3,4) by (auto dest: inj_onD)
qed

lemma Applicant_by_id_None:
  "Applicant_by_id s (Some i) = None \<Longrightarrow> i \<notin> ap_id ` set (applicants s)"
  by (auto simp: Applicant_by_id_def find_None_iff)

lemma rows_of_saved:
  "a \<in> set (annotators (save_annotator j s)) \<Longrightarrow> an_id a = an_id j \<Longrightarrow> a = j"
  by (auto simp: save_annotator_def split: if_splits)

text \<open>
  Claim C2. Whenever the controller computes the candidate pool of a judge,
  \<^verbatim>\<open>preferred_applicants\<close> returns the result of the sequential pipeline: the active
  items that the judge does not ignore; only the prioritized ones if there is any;
  without the busy ones, the next items of the other active judges whose
  \<^verbatim>\<open>updated\<close> is less than \<^verbatim>\<open>TIMEOUT\<close> minutes old, unless that leaves
  nothing; only the ones with fewer than \<^verbatim>\<open>MIN_VIEWS\<close> views unless that leaves
  nothing. The controller computes a pool in two kinds of state, and the theorem has a
  part for each, after the condition that both meet: \<^verbatim>\<open>maybe_init_annotator\<close>
  calls for the judge of the session when that judge has no next item, the annotator
  ids being a primary key; \<^verbatim>\<open>vote\<close> and \<^verbatim>\<open>begin\<close> call through
  \<^verbatim>\<open>choose_next\<close> for the judge object they have just written, after they have
  appended its next item to its ignore list (\<open>vote_selection_state\<close> and
  \<open>begin_selection_state\<close> below).
\<close>

theorem preferred_applicants_spec_pipeline:
  "((\<forall>a \<in> set (annotators s). an_id a = an_id j \<longrightarrow>
        (\<forall>i. next_id a = Some i \<longrightarrow>
            i \<in> set (ignore j) \<or> i \<notin> ap_id ` set (applicants s)))
      \<longrightarrow> preferred_applicants cfg now s j = candidate_pool_spec cfg now s j)
   \<and> (distinct (map an_id (annotators s)) \<and> get_current_annotator s uid = Some j
        \<and> next_of s j = None
      \<longrightarrow> preferred_applicants cfg now s j = candidate_pool_spec cfg now s j)
   \<and> ((\<forall>i. next_id j = Some i \<longrightarrow> i \<in> set (ignore j))
      \<longrightarrow> preferred_applicants cfg now (save_annotator j s) j
            = candidate_pool_spec cfg now (save_annotator j s) j)"
proof (intro conjI impI)
  assume "\<forall>a \<in> set (annotators s). an_id a = an_id j \<longrightarrow>
        (\<forall>i. next_id a = Some i \<longrightarrow>
            i \<in> set (ignore j) \<or> i \<notin> ap_id ` set (applicants s))"
  then show "preferred_applicants cfg now s j = candidate_pool_spec cfg now s j"
    by (rule pipeline_when_own_next_out)
next
  assume h: "distinct (map an_id (annotators s)) \<and> get_current_annotator s uid = Some j
        \<and> next_of s j = None"
  show "preferred_applicants cfg now s j = candidate_pool_spec cfg now s j"
  proof (rule pipeline_when_own_next_out, intro ballI impI allI)
    fix a i
    assume "a \<in> set (annotators s)" and "an_id a = an_id j" and n: "next_id a = Some i"
    with h have "a = j"
      using primary_key_row [of s uid j a] by (simp add: get_current_annotator_def)
    with n h have "Applicant_by_id s (Some i) = None"
      by (simp add: next_of_def)
    then show "i \<in> set (ignore j) \<or> i \<notin> ap_id ` set (applicants s)"
      by (simp add: Applicant_by_id_None)
  qed
next
  assume h: "\<forall>i. next_id j = Some i \<longrightarrow> i \<in> set (ignore j)"
  show "preferred_applicants cfg now (save_annotator j s) j
            = candidate_pool_spec cfg now (save_annotator j s) j"
  proof (rule pipeline_when_own_next_out, intro ballI impI allI)
    fix a i
    assume "a \<in> set (annotators (save_annotator j s))" and "an_id a = an_id j"
      and n: "next_id a = Some i"
    then have "a = j" by (simp add: rows_of_saved)
    with n h show "i \<in> set (ignore j) \<or> i \<notin> ap_id ` set (applicants (save_annotator j s))"
      by simp
  qed
qed

lemma pool_two:
  "candidate_pool_spec cfg0 1000000 db_two judge_voted = [apW]"
  by (simp add: candidate_pool_spec_def pool_steps_def busy_other_def within_timeout_def
        or_else_def cfg0_def db_two_def judge_voted_def judge_other_def
        apX_def apY_def apZ_def apW_def)

text \<open>
  The judge who has just voted ignores applicants 10 and 20, the second judge keeps
  applicant 40 busy: the pool is applicant 50.
\<close>

theorem preferred_applicants_spec_pipeline_witness:
  "next_id judge_voted = Some 20 \<and> ignore judge_voted = [10, 20]
   \<and> save_annotator judge_voted db_two = db_two
   \<and> preferred_applicants cfg0 1000000 db_two judge_voted
       = candidate_pool_spec cfg0 1000000 db_two judge_voted
   \<and> candidate_pool_spec cfg0 1000000 db_two judge_voted = [apW]"
proof -
  have sv: "save_annotator judge_voted db_two = db_two"
    by (simp add: save_annotator_def db_two_def judge_voted_def judge_other_def)
  have own: "\<forall>i. next_id judge_voted = Some i \<longrightarrow> i \<in> set (ignore judge_voted)"
    by (simp add: judge_voted_def)
  from preferred_applicants_spec_pipeline [of db_two judge_voted cfg0 1000000] own
  have "preferred_applicants cfg0 1000000 (save_annotator judge_voted db_two) judge_voted
          = candidate_pool_spec cfg0 1000000 (save_annotator judge_voted db_two) judge_voted"
    by blast
  then show ?thesis
    by (simp add: sv pool_two) (simp add: judge_voted_def)
qed

text \<open>
  The condition on the judge's own next item is needed. In the example state of a judge
  who has just been given applicant 10 and does not ignore it, a state in which the
  controller computes no pool, the source counts that item as busy as well.
\<close>

lemma own_next_not_ignored_example:
  "preferred_applicants cfg0 1000000 db_begin judge_begin = [apY]
   \<and> candidate_pool_spec cfg0 1000000 db_begin judge_begin = [apX, apY]"
  by (simp add: preferred_applicants_steps candidate_pool_spec_def pool_steps_def busy_any_def
        busy_other_def within_timeout_def or_else_def cfg0_def db_begin_def judge_begin_def
        apX_def apY_def)

text \<open>
  Claim C10. Every item of the pool that \<^verbatim>\<open>preferred_applicants\<close> returns for a
  judge is a row of the applicant table, is active and is not in the judge's ignore list,
  whichever of the fallbacks for prioritized, busy and less seen items are taken.
\<close>

theorem preferred_applicants_active_not_ignored:
  "\<forall>a \<in> set (preferred_applicants cfg now s j).
     a \<in> set (applicants s) \<and> ap_active a \<and> ap_id a \<notin> set (ignore j)"
  using pool_steps_subset [of cfg "busy_any cfg now s" s j]
  by (auto simp: preferred_applicants_steps)

text \<open>Applicant 20 in the pool of the example state.\<close>

theorem preferred_applicants_active_not_ignored_witness:
  "apY \<in> set (preferred_applicants cfg0 1000000 db_begin judge_begin)
   \<and> apY \<in> set (applicants db_begin) \<and> ap_active apY \<and> ap_id apY \<notin> set (ignore judge_begin)"
proof -
  have m: "apY \<in> set (preferred_applicants cfg0 1000000 db_begin judge_begin)"
    by (simp add: preferred_applicants_steps pool_steps_def busy_any_def within_timeout_def
        or_else_def cfg0_def db_begin_def judge_begin_def apX_def apY_def)
  with preferred_applicants_active_not_ignored [of cfg0 1000000 db_begin judge_begin]
  show ?thesis by blast
qed

section \<open>Rows after a write\<close>

lemma applicants_save_annotator [simp]: "applicants (save_annotator a s) = applicants s"
  by (simp add: save_annotator_def)

lemma decisions_save_annotator [simp]: "decisions (save_annotator a s) = decisions s"
  by (simp add: save_annotator_def)

lemma annotators_modify_applicant [simp]: "annotators (modify_applicant k f s) = annotators s"
  by (simp add: modify_applicant_def)

lemma decisions_modify_applicant [simp]: "decisions (modify_applicant k f s) = decisions s"
  by (simp add: modify_applicant_def)

lemma Applicant_by_id_save_annotator [simp]:
  "Applicant_by_id (save_annotator a s) i = Applicant_by_id s i"
  by (cases i) (simp_all add: Applicant_by_id_def)

lemma Annotator_by_id_modify_applicant [simp]:
  "Annotator_by_id (modify_applicant k f s) i = Annotator_by_id s i"
  by (cases i) (simp_all add: Annotator_by_id_def)

lemma find_map_keep:
  assumes "\<And>x. P (g x) = P x"
  shows "find P (map g xs) = map_option g (find P xs)"
  by (induction xs) (simp_all add: assms)

lemma Annotator_by_id_Some_id:
  "Annotator_by_id s uid = Some a \<Longrightarrow> uid = Some (an_id a)"
  by (cases uid) (auto simp: Annotator_by_id_def find_Some_iff)

lemma Applicant_by_id_Some_id:
  "Applicant_by_id s i = Some b \<Longrightarrow> i = Some (ap_id b)"
  by (cases i) (auto simp: Applicant_by_id_def find_Some_iff)

lemma Applicant_by_id_mem:
  "Applicant_by_id s i = Some b \<Longrightarrow> b \<in> set (applicants s)"
  by (cases i) (auto simp: Applicant_by_id_def find_Some_iff)

lemma Applicant_by_id_of_mem:
  "b \<in> set (applicants s) \<Longrightarrow> Applicant_by_id s (Some (ap_id b)) \<noteq> None"
  by (auto simp: Applicant_by_id_def find_None_iff)

lemma Annotator_by_id_save:
  "Annotator_by_id (save_annotator a s) (Some i)
     = map_option (\<lambda>x. if an_id x = an_id a then a else x) (Annotator_by_id s (Some i))"
  unfolding Annotator_by_id_def save_annotator_def
  by (simp add: find_map_keep)

lemma Annotator_by_id_save_self:
  assumes "Annotator_by_id s (Some (an_id a)) = Some a0"
  shows "Annotator_by_id (save_annotator a s) (Some (an_id a)) = Some a"
  using assms Annotator_by_id_Some_id [OF assms] by (simp add: Annotator_by_id_save)

lemma Applicant_by_id_modify:
  assumes "\<And>b. ap_id (f b) = ap_id b"
  shows "Applicant_by_id (modify_applicant k f s) (Some i)
     = map_option (\<lambda>b. if ap_id b = k then f b else b) (Applicant_by_id s (Some i))"
  unfolding Applicant_by_id_def modify_applicant_def
  by (simp add: find_map_keep assms)

lemma Applicant_by_id_modify_self:
  assumes "\<And>b. ap_id (f b) = ap_id b" and "Applicant_by_id s (Some k) = Some b0"
  shows "Applicant_by_id (modify_applicant k f s) (Some k) = Some (f b0)"
  using assms(2) Applicant_by_id_Some_id [OF assms(2)]
  by (simp add: Applicant_by_id_modify assms(1))

section \<open>Properties of the assignment\<close>

text \<open>
  Claim C9. When \<^verbatim>\<open>update_next\<close> sets the next assignment of a judge to an item,
  the row of that item has \<^verbatim>\<open>prioritized\<close> false and is otherwise as before, and
  the row of the judge has the item as next and the current time as \<^verbatim>\<open>updated\<close>.
  When it sets the next assignment to none, no applicant row changes and the row of the
  judge keeps its \<^verbatim>\<open>updated\<close>.
\<close>

theorem update_next_effect:
  assumes "Annotator_by_id s (Some (an_id self)) = Some self"
  shows "(Applicant_by_id s (Some (ap_id n)) = Some n0 \<longrightarrow>
            Applicant_by_id (update_next now self (Some n) s) (Some (ap_id n))
              = Some (n0\<lparr>prioritized := False\<rparr>)
          \<and> Annotator_by_id (update_next now self (Some n) s) (Some (an_id self))
              = Some (self\<lparr>next_id := Some (ap_id n), updated := Some now\<rparr>))
       \<and> applicants (update_next now self None s) = applicants s
       \<and> Annotator_by_id (update_next now self None s) (Some (an_id self))
              = Some (self\<lparr>next_id := None\<rparr>)
       \<and> updated (self\<lparr>next_id := None\<rparr>) = updated self"
proof -
  have a: "Annotator_by_id (save_annotator (self\<lparr>next_id := x, updated := y\<rparr>) s') (Some (an_id self))
             = Some (self\<lparr>next_id := x, updated := y\<rparr>)"
    if "Annotator_by_id s' (Some (an_id self)) = Some self" for x y s'
    using Annotator_by_id_save_self [of s' "self\<lparr>next_id := x, updated := y\<rparr>" self] that by simp
  have b: "Annotator_by_id (save_annotator (self\<lparr>next_id := None\<rparr>) s) (Some (an_id self))
             = Some (self\<lparr>next_id := None\<rparr>)"
    using Annotator_by_id_save_self [of s "self\<lparr>next_id := None\<rparr>" self] assms by simp
  show ?thesis
    using assms b
    by (simp add: update_next_def a Applicant_by_id_modify_self)
qed

text \<open>
  The new judge of the example is assigned the prioritized applicant 30 at time 7.
\<close>

theorem update_next_effect_witness:
  "Annotator_by_id db_new (Some (an_id judge_new)) = Some judge_new
   \<and> Applicant_by_id db_new (Some (ap_id apP)) = Some apP
   \<and> Applicant_by_id (update_next 7 judge_new (Some apP) db_new) (Some (ap_id apP))
       = Some (apP\<lparr>prioritized := False\<rparr>)
   \<and> Annotator_by_id (update_next 7 judge_new (Some apP) db_new) (Some (an_id judge_new))
       = Some (judge_new\<lparr>next_id := Some 30, updated := Some 7\<rparr>)
   \<and> applicants (update_next 7 judge_new None db_new) = [apX, apY, apP]"
  using update_next_effect [of db_new judge_new apP apP 7]
  by (simp add: Annotator_by_id_def Applicant_by_id_def db_new_def judge_new_def apX_def apY_def apP_def)

section \<open>Auxiliary facts\<close>

subsection \<open>The first maximal element\<close>

lemma argmax_from_split:
  "\<exists>ys zs. b # xs = ys @ argmax_from f b xs # zs
     \<and> (\<forall>y \<in> set ys. f y < f (argmax_from f b xs))
     \<and> (\<forall>z \<in> set zs. f z \<le> f (argmax_from f b xs))"
proof (induction xs arbitrary: b)
  case Nil
  show ?case by (intro exI [of _ "[]"]) simp
next
  case (Cons a xs)
  define b' where "b' = (if f b < f a then a else b)"
  define c where "c = argmax_from f b' xs"
  have c: "argmax_from f b (a # xs) = c"
    by (simp add: c_def b'_def)
  from Cons.IH [of b'] obtain ys zs where
    split: "b' # xs = ys @ c # zs" and lt: "\<forall>y \<in> set ys. f y < f c" and le: "\<forall>z \<in> set zs. f z \<le> f c"
    unfolding c_def by blast
  have hd_le: "f b' \<le> f c"
  proof (cases ys)
    case Nil
    with split show ?thesis by simp
  next
    case (Cons y ys')
    with split lt show ?thesis by auto
  qed
  show ?case
  proof (cases "f b < f a")
    case True
    then have "b' = a" by (simp add: b'_def)
    with split have "b # a # xs = (b # ys) @ c # zs" by simp
    moreover have "f b < f c" using True hd_le \<open>b' = a\<close> by simp
    ultimately show ?thesis
      unfolding c using lt le by (intro exI [of _ "b # ys"] exI [of _ zs]) simp
  next
    case False
    then have b': "b' = b" by (simp add: b'_def)
    show ?thesis
    proof (cases ys)
      case Nil
      with split b' have "c = b" and "zs = xs" by simp_all
      then have "b # a # xs = [] @ c # (a # zs)" by simp
      moreover have "f a \<le> f c" using False \<open>c = b\<close> by simp
      ultimately show ?thesis
        unfolding c using le by (intro exI [of _ "[]"] exI [of _ "a # zs"]) simp
    next
      case (Cons y ys')
      with split b' have "y = b" and xs: "xs = ys' @ c # zs" by simp_all
      have "f b < f c" using lt Cons \<open>y = b\<close> by simp
      then have "f a < f c" using False by simp
      have "b # a # xs = (b # a # ys') @ c # zs" using xs by simp
      then show ?thesis
        unfolding c using lt le Cons \<open>y = b\<close> \<open>f a < f c\<close>
        by (intro exI [of _ "b # a # ys'"] exI [of _ zs]) simp
    qed
  qed
qed

lemma argmax_first_maximal:
  assumes "xs \<noteq> []"
  shows "\<exists>ys c zs. argmax f xs = Some c \<and> xs = ys @ c # zs
     \<and> (\<forall>y \<in> set ys. f y < f c) \<and> (\<forall>z \<in> set zs. f z \<le> f c)"
proof -
  from assms obtain b rest where xs: "xs = b # rest" by (cases xs) auto
  from argmax_from_split [of b rest f] show ?thesis
    unfolding xs by auto
qed

subsection \<open>Pools and assignments\<close>

lemma preferred_applicants_Nil_iff:
  "preferred_applicants cfg now s j = []
     \<longleftrightarrow> filter (\<lambda>a. ap_active a \<and> ap_id a \<notin> set (ignore j)) (applicants s) = []"
  by (simp only: preferred_applicants_steps pool_steps_Nil)

lemma preferred_applicants_mem:
  "c \<in> set (preferred_applicants cfg now s j) \<Longrightarrow>
     c \<in> set (applicants s) \<and> ap_active c \<and> ap_id c \<notin> set (ignore j)"
  using pool_steps_subset [of cfg "busy_any cfg now s" s j]
  by (auto simp: preferred_applicants_steps)

lemma update_next_Some_annotator:
  assumes "Annotator_by_id s (Some (an_id self)) = Some self0"
  shows "Annotator_by_id (update_next now self (Some n) s) (Some (an_id self))
           = Some (self\<lparr>next_id := Some (ap_id n), updated := Some now\<rparr>)"
  using Annotator_by_id_save_self
          [of "modify_applicant (ap_id n) (\<lambda>b. b\<lparr>prioritized := False\<rparr>) s"
              "self\<lparr>next_id := Some (ap_id n), updated := Some now\<rparr>" self0] assms
  by (simp add: update_next_def)

lemma update_next_Some_applicant:
  assumes "Applicant_by_id s (Some (ap_id n)) = Some n0"
  shows "Applicant_by_id (update_next now self (Some n) s) (Some (ap_id n))
           = Some (n0\<lparr>prioritized := False\<rparr>)"
  using assms by (simp add: update_next_def Applicant_by_id_modify_self)

lemma pool_voted:
  "preferred_applicants cfg0 1000000 db_voted judge_voted = [apZ, apW]"
  by (simp add: preferred_applicants_steps pool_steps_def busy_any_def within_timeout_def
        or_else_def cfg0_def db_voted_def judge_voted_def apX_def apY_def apZ_def apW_def)

lemma pool_new:
  "preferred_applicants cfg0 now db_new judge_new = [apP]"
  by (simp add: preferred_applicants_steps pool_steps_def busy_any_def within_timeout_def
        or_else_def cfg0_def db_new_def judge_new_def apX_def apY_def apP_def)

subsection \<open>Selection and assignment inside a transition\<close>

lemma argmax_from_mem: "argmax_from f b xs \<in> set (b # xs)"
proof (induction xs arbitrary: b)
  case Nil
  show ?case by simp
next
  case (Cons a xs)
  from Cons.IH [of "if f b < f a then a else b"] show ?case
    by (auto split: if_splits)
qed

lemma argmax_mem: "argmax f xs = Some c \<Longrightarrow> c \<in> set xs"
  using argmax_from_mem [of f] by (cases xs) auto

lemma choose_next_total:
  assumes "prev_of s a = Some p"
  shows "\<exists>new_next. choose_next cfg cbt r now s a = Inr new_next"
  using assms by (simp add: choose_next_def split: list.split)

lemma choose_next_mem:
  assumes "choose_next cfg cbt r now s a = Inr (Some c)"
  shows "c \<in> set (rnd_shuffle r (preferred_applicants cfg now s a))"
proof (cases "rnd_shuffle r (preferred_applicants cfg now s a)")
  case Nil
  with assms show ?thesis by (simp add: choose_next_def)
next
  case (Cons first rest)
  show ?thesis
  proof (cases "rnd_random r < EPSILON cbt")
    case True
    with assms Cons show ?thesis by (simp add: choose_next_def)
  next
    case False
    with assms Cons obtain p where "prev_of s a = Some p"
      by (cases "prev_of s a") (simp_all add: choose_next_def)
    with assms Cons False
    have "argmax (\<lambda>x. expected_information_gain cbt (alpha a) (beta a)
                   (mu p) (sigma_sq p) (mu x) (sigma_sq x)) (first # rest) = Some c"
      by (simp add: choose_next_def)
    from argmax_mem [OF this] Cons show ?thesis by simp
  qed
qed

lemma decisions_update_next [simp]: "decisions (update_next now a new_next s) = decisions s"
  by (cases new_next) (simp_all add: update_next_def)

lemma map_applicants_modify:
  assumes "\<And>b. g (f b) = g b"
  shows "map g (applicants (modify_applicant k f s)) = map g (applicants s)"
  by (simp add: modify_applicant_def assms)

lemma map_applicants_update_next:
  assumes "\<And>b. g (b\<lparr>prioritized := False\<rparr>) = g b"
  shows "map g (applicants (update_next now a new_next s)) = map g (applicants s)"
  by (cases new_next) (simp_all add: update_next_def map_applicants_modify assms)

lemma Applicant_by_id_update_next:
  "map_option g (Applicant_by_id (update_next now a new_next s) (Some i))
     = map_option (\<lambda>b. g (case new_next of None \<Rightarrow> b
                            | Some c \<Rightarrow> if ap_id b = ap_id c then b\<lparr>prioritized := False\<rparr> else b))
         (Applicant_by_id s (Some i))"
  by (cases new_next) (simp_all add: update_next_def Applicant_by_id_modify option.map_comp comp_def)

lemma viewed_update_next:
  "map_option viewed (Applicant_by_id (update_next now a new_next s) (Some i))
     = map_option viewed (Applicant_by_id s (Some i))"
  unfolding Applicant_by_id_update_next
  by (cases new_next; cases "Applicant_by_id s (Some i)") simp_all

lemma update_next_annotator_row:
  assumes "Annotator_by_id s (Some (an_id a)) = Some a0"
  shows "\<exists>a'. Annotator_by_id (update_next now a new_next s) (Some (an_id a)) = Some a'
     \<and> prev_id a' = prev_id a \<and> ignore a' = ignore a \<and> alpha a' = alpha a \<and> beta a' = beta a
     \<and> next_id a' = map_option ap_id new_next"
proof (cases new_next)
  case None
  have "Annotator_by_id (save_annotator (a\<lparr>next_id := None\<rparr>) s) (Some (an_id a))
          = Some (a\<lparr>next_id := None\<rparr>)"
    using Annotator_by_id_save_self [of s "a\<lparr>next_id := None\<rparr>" a0] assms by simp
  with None show ?thesis by (simp add: update_next_def)
next
  case (Some c)
  with update_next_Some_annotator [OF assms, of now c] show ?thesis by simp
qed

subsection \<open>Where the controller selects\<close>

text \<open>
  Whenever \<^verbatim>\<open>vote\<close> or \<^verbatim>\<open>begin\<close> gets as far as \<^verbatim>\<open>choose_next\<close>, the
  call is for the judge object that has just been written to its row, and the next item
  of that object is in its ignore list. A vote of a judge with no previous item raises
  before any selection.
\<close>

lemma perform_vote_result:
  assumes "next_of s annotator = Some n" and "prev_of s annotator = Some p"
  shows "\<exists>annotator' s1. perform_vote cbt annotator next_won s = Inr (annotator', s1)
           \<and> next_id annotator' = next_id annotator \<and> ignore annotator' = ignore annotator"
  using assms by (simp add: perform_vote_def Let_def split: prod.split)

lemma vote_selection_state:
  assumes cur: "get_current_annotator s uid = Some annotator"
    and prev: "prev_of s annotator = Some p" and nxt: "next_of s annotator = Some n"
    and fp: "f_prev_id frm = IntText (ap_id p)" and fn: "f_next_id frm = IntText (ap_id n)"
    and act: "f_action frm = Some action"
    and bound: "action = ''Skip'' \<or> \<not> (ap_active p \<and> ap_active n)
                  \<or> action = ''Previous'' \<or> action = ''Current''"
  shows "\<exists>j s0. next_id j = Some (ap_id n) \<and> ap_id n \<in> set (ignore j)
           \<and> vote cfg cbt r now frm uid s
               = (case choose_next cfg cbt r now (save_annotator j s0) j of
                    Inl e \<Rightarrow> Inl e
                  | Inr new_next \<Rightarrow> Inr (update_next now j new_next (save_annotator j s0)))"
proof -
  have nid: "next_id annotator = Some (ap_id n)"
    using nxt by (simp add: next_of_def Applicant_by_id_Some_id)
  show ?thesis
  proof (cases "action = ''Skip''")
    case True
    define j where "j = annotator\<lparr>ignore := ignore annotator @ [ap_id n]\<rparr>"
    have "vote cfg cbt r now frm uid s
            = (case choose_next cfg cbt r now (save_annotator j s) j of
                 Inl e \<Rightarrow> Inl e
               | Inr new_next \<Rightarrow> Inr (update_next now j new_next (save_annotator j s)))"
      by (simp add: vote_def Let_def cur prev nxt fp fn act True j_def split: sum.split)
    moreover have "next_id j = Some (ap_id n)" "ap_id n \<in> set (ignore j)"
      by (simp_all add: j_def nid)
    ultimately show ?thesis by blast
  next
    case False
    have "\<exists>annotator1 s1. next_id annotator1 = next_id annotator
            \<and> vote cfg cbt r now frm uid s
                = (case choose_next cfg cbt r now
                          (save_annotator
                            (annotator1\<lparr>prev_id := next_id annotator1,
                               ignore := ignore annotator1 @ [ap_id n]\<rparr>)
                            (modify_applicant (ap_id n)
                              (\<lambda>b. b\<lparr>viewed := viewed b @ [an_id annotator]\<rparr>) s1))
                          (annotator1\<lparr>prev_id := next_id annotator1,
                             ignore := ignore annotator1 @ [ap_id n]\<rparr>) of
                     Inl e \<Rightarrow> Inl e
                   | Inr new_next \<Rightarrow>
                       Inr (update_next now
                             (annotator1\<lparr>prev_id := next_id annotator1,
                                ignore := ignore annotator1 @ [ap_id n]\<rparr>)
                             new_next
                             (save_annotator
                               (annotator1\<lparr>prev_id := next_id annotator1,
                                  ignore := ignore annotator1 @ [ap_id n]\<rparr>)
                               (modify_applicant (ap_id n)
                                 (\<lambda>b. b\<lparr>viewed := viewed b @ [an_id annotator]\<rparr>) s1))))"
    proof (cases "ap_active p \<and> ap_active n")
      case inactive: False
      then have off: "(ap_active p \<and> ap_active n) = False" by simp
      have "vote cfg cbt r now frm uid s
                = (case choose_next cfg cbt r now
                          (save_annotator
                            (annotator\<lparr>prev_id := next_id annotator,
                               ignore := ignore annotator @ [ap_id n]\<rparr>)
                            (modify_applicant (ap_id n)
                              (\<lambda>b. b\<lparr>viewed := viewed b @ [an_id annotator]\<rparr>) s))
                          (annotator\<lparr>prev_id := next_id annotator,
                             ignore := ignore annotator @ [ap_id n]\<rparr>) of
                     Inl e \<Rightarrow> Inl e
                   | Inr new_next \<Rightarrow>
                       Inr (update_next now
                             (annotator\<lparr>prev_id := next_id annotator,
                                ignore := ignore annotator @ [ap_id n]\<rparr>)
                             new_next
                             (save_annotator
                               (annotator\<lparr>prev_id := next_id annotator,
                                  ignore := ignore annotator @ [ap_id n]\<rparr>)
                               (modify_applicant (ap_id n)
                                 (\<lambda>b. b\<lparr>viewed := viewed b @ [an_id annotator]\<rparr>) s))))"
        by (simp add: vote_def Let_def cur prev nxt fp fn act False off split: sum.split)
      then show ?thesis by blast
    next
      case active: True
      with bound False consider "action = ''Previous''" | "action = ''Current''" by blast
      then show ?thesis
      proof cases
        case 1
        from perform_vote_result [OF nxt prev, of cbt False] obtain annotator1 s1 where
          pv: "perform_vote cbt annotator False s = Inr (annotator1, s1)"
          and same: "next_id annotator1 = next_id annotator"
          by blast
        define s1' where "s1' = s1\<lparr>decisions := decisions s1 @
                 [\<lparr>d_annotator = an_id annotator, winner = ap_id p, loser = ap_id n\<rparr>]\<rparr>"
        show ?thesis
          by (rule exI [of _ annotator1], rule exI [of _ s1'])
             (simp add: vote_def Let_def cur prev nxt fp fn act 1 active pv same s1'_def split: sum.split)
      next
        case 2
        from perform_vote_result [OF nxt prev, of cbt True] obtain annotator1 s1 where
          pv: "perform_vote cbt annotator True s = Inr (annotator1, s1)"
          and same: "next_id annotator1 = next_id annotator"
          by blast
        define s1' where "s1' = s1\<lparr>decisions := decisions s1 @
                 [\<lparr>d_annotator = an_id annotator, winner = ap_id n, loser = ap_id p\<rparr>]\<rparr>"
        show ?thesis
          by (rule exI [of _ annotator1], rule exI [of _ s1'])
             (simp add: vote_def Let_def cur prev nxt fp fn act 2 active pv same s1'_def split: sum.split)
      qed
    qed
    then obtain annotator1 s1 where
      same: "next_id annotator1 = next_id annotator"
      and run: "vote cfg cbt r now frm uid s
                = (case choose_next cfg cbt r now
                          (save_annotator
                            (annotator1\<lparr>prev_id := next_id annotator1,
                               ignore := ignore annotator1 @ [ap_id n]\<rparr>)
                            (modify_applicant (ap_id n)
                              (\<lambda>b. b\<lparr>viewed := viewed b @ [an_id annotator]\<rparr>) s1))
                          (annotator1\<lparr>prev_id := next_id annotator1,
                             ignore := ignore annotator1 @ [ap_id n]\<rparr>) of
                     Inl e \<Rightarrow> Inl e
                   | Inr new_next \<Rightarrow>
                       Inr (update_next now
                             (annotator1\<lparr>prev_id := next_id annotator1,
                                ignore := ignore annotator1 @ [ap_id n]\<rparr>)
                             new_next
                             (save_annotator
                               (annotator1\<lparr>prev_id := next_id annotator1,
                                  ignore := ignore annotator1 @ [ap_id n]\<rparr>)
                               (modify_applicant (ap_id n)
                                 (\<lambda>b. b\<lparr>viewed := viewed b @ [an_id annotator]\<rparr>) s1))))"
      by blast
    define j where "j = annotator1\<lparr>prev_id := next_id annotator1,
                               ignore := ignore annotator1 @ [ap_id n]\<rparr>"
    have "next_id j = Some (ap_id n)" "ap_id n \<in> set (ignore j)"
      by (simp_all add: j_def same nid)
    with run show ?thesis
      unfolding j_def [symmetric] by blast
  qed
qed

lemma begin_selection_state:
  assumes cur: "get_current_annotator s uid = Some annotator"
    and nxt: "next_of s annotator = Some n"
    and claimed: "int_of_get (get_or (f_applicant_id frm) (f_item_id frm)) = Inr (ap_id n)"
    and act: "f_action frm = Some ''Continue''"
  shows "\<exists>j s0. next_id j = Some (ap_id n) \<and> ap_id n \<in> set (ignore j)
           \<and> begin_tx cfg cbt r now frm uid s
               = (case choose_next cfg cbt r now (save_annotator j s0) j of
                    Inl e \<Rightarrow> Inl e
                  | Inr new_next \<Rightarrow> Inr (update_next now j new_next (save_annotator j s0)))"
proof -
  have nid: "next_id annotator = Some (ap_id n)"
    using nxt by (simp add: next_of_def Applicant_by_id_Some_id)
  define j where "j = annotator\<lparr>ignore := ignore annotator @ [ap_id n],
                        prev_id := next_id annotator\<rparr>"
  define s0 where "s0 = modify_applicant (ap_id n)
                      (\<lambda>b. b\<lparr>viewed := viewed b @ [an_id annotator]\<rparr>)
                      (save_annotator (annotator\<lparr>ignore := ignore annotator @ [ap_id n]\<rparr>) s)"
  have "begin_tx cfg cbt r now frm uid s
               = (case choose_next cfg cbt r now (save_annotator j s0) j of
                    Inl e \<Rightarrow> Inl e
                  | Inr new_next \<Rightarrow> Inr (update_next now j new_next (save_annotator j s0)))"
    by (simp add: begin_tx_def Let_def cur nxt claimed act j_def s0_def split: sum.split)
  moreover have "next_id j = Some (ap_id n)" "ap_id n \<in> set (ignore j)"
    by (simp_all add: j_def nid)
  ultimately show ?thesis by blast
qed

lemma vote_needs_prev:
  assumes "get_current_annotator s uid = Some annotator" and "prev_of s annotator = None"
  shows "vote cfg cbt r now frm uid s = Inl AttributeError"
  using assms by (simp add: vote_def)


subsection \<open>The examples, evaluated\<close>

lemma vote_example:
  "vote cfg0 cbt0 rnd0 1000000 form_current (Some 1) db_deactivated = Inr db_after_vote"
  by (simp add: vote_def get_current_annotator_def Annotator_by_id_def Applicant_by_id_def
        prev_of_def next_of_def choose_next_def update_next_def save_annotator_def
        modify_applicant_def preferred_applicants_steps pool_steps_def busy_any_def
        within_timeout_def or_else_def db_after_vote_def
        db_deactivated_def judge_steady_def form_current_def cfg0_def cbt0_def rnd0_def
        apX_def apY_off_def apZ_def apW_def Let_def)

lemma steady_rows:
  "get_current_annotator db_deactivated (Some 1) = Some judge_steady"
  "prev_of db_deactivated judge_steady = Some apX"
  "next_of db_deactivated judge_steady = Some apY_off"
  by (simp_all add: get_current_annotator_def Annotator_by_id_def Applicant_by_id_def
        prev_of_def next_of_def db_deactivated_def judge_steady_def apX_def apY_off_def)

lemma begin_rows:
  "get_current_annotator db_begin (Some 1) = Some judge_begin"
  "next_of db_begin judge_begin = Some apX"
  by (simp_all add: get_current_annotator_def Annotator_by_id_def Applicant_by_id_def
        next_of_def db_begin_def judge_begin_def apX_def)

lemma seen_begin:
  "save_annotator (judge_begin\<lparr>ignore := [10], prev_id := Some 10\<rparr>)
     (modify_applicant 10 (\<lambda>b. b\<lparr>viewed := viewed b @ [1]\<rparr>)
       (save_annotator (judge_begin\<lparr>ignore := [10]\<rparr>) db_begin)) = db_seen"
  by (simp add: save_annotator_def modify_applicant_def db_seen_def db_begin_def
        judge_begin_def apX_def apY_def)

lemma pool_seen:
  "preferred_applicants cfg0 1000000 db_seen (judge_begin\<lparr>ignore := [10], prev_id := Some 10\<rparr>)
     = [apY]"
  by (simp add: preferred_applicants_steps pool_steps_def busy_any_def within_timeout_def
        or_else_def cfg0_def db_seen_def judge_begin_def apX_def apY_def)

lemma prev_seen:
  "prev_of db_seen (judge_begin\<lparr>ignore := [10], prev_id := Some 10\<rparr>)
     = Some (apX\<lparr>viewed := [1]\<rparr>)"
  by (simp add: prev_of_def Applicant_by_id_def db_seen_def apX_def)

lemma choose_seen:
  "choose_next cfg0 cbt0 rnd0 1000000 db_seen (judge_begin\<lparr>ignore := [10], prev_id := Some 10\<rparr>)
     = Inr (Some apY)"
  by (simp add: choose_next_def pool_seen prev_seen rnd0_def cbt0_def)

lemma update_seen:
  "update_next 1000000 (judge_begin\<lparr>ignore := [10], prev_id := Some 10\<rparr>) (Some apY) db_seen
     = db_after_continue"
  by (simp add: update_next_def save_annotator_def modify_applicant_def db_seen_def
        db_after_continue_def judge_begin_def apX_def apY_def)

lemma begin_continue_example:
  "begin_tx cfg0 cbt0 rnd0 1000000 form_continue (Some 1) db_begin = Inr db_after_continue"
proof -
  have f: "f_applicant_id form_continue = IntText 10" "f_action form_continue = Some ''Continue''"
    by (simp_all add: form_continue_def)
  have j: "ignore judge_begin = []" "next_id judge_begin = Some 10" "an_id judge_begin = 1"
    by (simp_all add: judge_begin_def)
  have x: "ap_id apX = 10"
    by (simp add: apX_def)
  show ?thesis
    by (simp add: begin_tx_def Let_def begin_rows f j x seen_begin choose_seen update_seen)
qed

lemma begin_skip_example:
  "begin_tx cfg0 cbt0 rnd0 1000000 form_skip (Some 1) db_begin = Inr db_after_skip"
  by (simp add: begin_tx_def get_current_annotator_def Annotator_by_id_def Applicant_by_id_def
        next_of_def save_annotator_def db_after_skip_def
        db_begin_def judge_begin_def form_skip_def apX_def apY_def Let_def)

section \<open>Properties of the selection\<close>

text \<open>
  Claim C4. \<^verbatim>\<open>choose_next\<close> for a judge with a reference item, \<^verbatim>\<open>prev\<close>, where
  the shuffle rearranges the candidate list: on an empty list the result is none; on a
  non-empty list the result is the first shuffled candidate when the draw is below
  \<^verbatim>\<open>EPSILON\<close>, and otherwise a candidate whose expected information gain against
  the reference item no candidate exceeds and no candidate earlier in the shuffled list
  reaches.
\<close>

theorem choose_next_with_reference:
  assumes "prev_of s annotator = Some p"
    and "mset (rnd_shuffle r (preferred_applicants cfg now s annotator))
           = mset (preferred_applicants cfg now s annotator)"
  shows "(preferred_applicants cfg now s annotator = [] \<longrightarrow>
            choose_next cfg cbt r now s annotator = Inr None)
       \<and> (preferred_applicants cfg now s annotator \<noteq> [] \<and> rnd_random r < EPSILON cbt \<longrightarrow>
            (\<exists>first rest. rnd_shuffle r (preferred_applicants cfg now s annotator) = first # rest
               \<and> choose_next cfg cbt r now s annotator = Inr (Some first)))
       \<and> (preferred_applicants cfg now s annotator \<noteq> [] \<and> \<not> rnd_random r < EPSILON cbt \<longrightarrow>
            (\<exists>ys c zs. rnd_shuffle r (preferred_applicants cfg now s annotator) = ys @ c # zs
               \<and> choose_next cfg cbt r now s annotator = Inr (Some c)
               \<and> (\<forall>y \<in> set ys.
                     expected_information_gain cbt (alpha annotator) (beta annotator)
                       (mu p) (sigma_sq p) (mu y) (sigma_sq y)
                   < expected_information_gain cbt (alpha annotator) (beta annotator)
                       (mu p) (sigma_sq p) (mu c) (sigma_sq c))
               \<and> (\<forall>z \<in> set zs.
                     expected_information_gain cbt (alpha annotator) (beta annotator)
                       (mu p) (sigma_sq p) (mu z) (sigma_sq z)
                   \<le> expected_information_gain cbt (alpha annotator) (beta annotator)
                       (mu p) (sigma_sq p) (mu c) (sigma_sq c))))"
proof -
  define pool where "pool = preferred_applicants cfg now s annotator"
  define shuffled where "shuffled = rnd_shuffle r pool"
  define score where "score = (\<lambda>a::applicant. expected_information_gain cbt (alpha annotator) (beta annotator)
                       (mu p) (sigma_sq p) (mu a) (sigma_sq a))"
  have perm: "mset shuffled = mset pool"
    using assms(2) by (simp add: shuffled_def pool_def)
  have empty: "shuffled = [] \<longleftrightarrow> pool = []"
    using perm by (metis mset_zero_iff mset.simps(1))
  have cn: "choose_next cfg cbt r now s annotator =
      (case shuffled of [] \<Rightarrow> Inr None
       | first # rest \<Rightarrow>
          if rnd_random r < EPSILON cbt then Inr (Some first)
          else (case argmax score (first # rest) of None \<Rightarrow> Inl ValueError
                | Some a \<Rightarrow> Inr (Some a)))"
    by (simp add: choose_next_def shuffled_def pool_def score_def assms(1) split: list.split)
  have 1: "choose_next cfg cbt r now s annotator = Inr None" if "pool = []"
    using that empty by (simp add: cn)
  have 2: "\<exists>first rest. shuffled = first # rest
              \<and> choose_next cfg cbt r now s annotator = Inr (Some first)"
    if "pool \<noteq> []" and "rnd_random r < EPSILON cbt"
  proof -
    from that(1) empty obtain first rest where "shuffled = first # rest"
      by (cases shuffled) auto
    then show ?thesis using that(2) by (simp add: cn)
  qed
  have 3: "\<exists>ys c zs. shuffled = ys @ c # zs
              \<and> choose_next cfg cbt r now s annotator = Inr (Some c)
              \<and> (\<forall>y \<in> set ys. score y < score c) \<and> (\<forall>z \<in> set zs. score z \<le> score c)"
    if "pool \<noteq> []" and "\<not> rnd_random r < EPSILON cbt"
  proof -
    from that(1) empty have ne: "shuffled \<noteq> []" by simp
    from argmax_first_maximal [OF ne, of score] obtain ys c zs where
      am: "argmax score shuffled = Some c" and sp: "shuffled = ys @ c # zs"
      and lt: "\<forall>y \<in> set ys. score y < score c" and le: "\<forall>z \<in> set zs. score z \<le> score c"
      by blast
    from ne obtain first rest where fr: "shuffled = first # rest"
      by (cases shuffled) auto
    have "choose_next cfg cbt r now s annotator = Inr (Some c)"
      using that(2) am by (simp add: cn fr)
    with sp lt le show ?thesis by blast
  qed
  show ?thesis
    using 1 2 3 unfolding pool_def [symmetric] shuffled_def [symmetric] score_def
    by blast
qed

text \<open>
  After the vote of the example the pool is applicants 40 and 50, shuffled to 50 and 40.
  With a draw that is not below the rate the result is applicant 40, which has the higher
  score; with a draw below the rate it is applicant 50, the first of the shuffled list.
\<close>

theorem choose_next_with_reference_witness:
  "prev_of db_voted judge_voted = Some apY
   \<and> rnd_shuffle rnd0 (preferred_applicants cfg0 1000000 db_voted judge_voted) = [apW, apZ]
   \<and> choose_next cfg0 cbt0 rnd0 1000000 db_voted judge_voted = Inr (Some apZ)
   \<and> choose_next cfg0 cbt0 rnd_explore 1000000 db_voted judge_voted = Inr (Some apW)"
proof -
  have p: "prev_of db_voted judge_voted = Some apY"
    by (simp add: prev_of_def Applicant_by_id_def db_voted_def judge_voted_def apX_def apY_def)
  have sh: "rnd_shuffle rnd0 (preferred_applicants cfg0 1000000 db_voted judge_voted) = [apW, apZ]"
    by (simp add: pool_voted rnd0_def)
  have perm: "mset (rnd_shuffle rnd0 (preferred_applicants cfg0 1000000 db_voted judge_voted))
                = mset (preferred_applicants cfg0 1000000 db_voted judge_voted)"
    by (simp add: pool_voted rnd0_def)
  have draw: "\<not> rnd_random rnd0 < EPSILON cbt0"
    by (simp add: rnd0_def cbt0_def)
  from choose_next_with_reference [OF p perm, of cbt0] draw
  obtain ys c zs where
    sp: "rnd_shuffle rnd0 (preferred_applicants cfg0 1000000 db_voted judge_voted) = ys @ c # zs"
    and res: "choose_next cfg0 cbt0 rnd0 1000000 db_voted judge_voted = Inr (Some c)"
    and lt: "\<forall>y \<in> set ys. expected_information_gain cbt0 (alpha judge_voted) (beta judge_voted)
                (mu apY) (sigma_sq apY) (mu y) (sigma_sq y)
              < expected_information_gain cbt0 (alpha judge_voted) (beta judge_voted)
                (mu apY) (sigma_sq apY) (mu c) (sigma_sq c)"
    by (auto simp: pool_voted)
  from sp sh have "ys @ c # zs = [apW, apZ]" by simp
  then consider "ys = []" "c = apW" | "ys = [apW]" "c = apZ"
    by (auto simp: append_eq_Cons_conv Cons_eq_append_conv)
  then have "c = apZ"
  proof cases
    case 1
    have "choose_next cfg0 cbt0 rnd0 1000000 db_voted judge_voted = Inr (Some apZ)"
      by (simp add: choose_next_def pool_voted rnd0_def cbt0_def p apZ_def apW_def)
    with res show ?thesis by simp
  next
    case 2
    then show ?thesis by simp
  qed
  have sh': "rnd_shuffle rnd_explore (preferred_applicants cfg0 1000000 db_voted judge_voted)
               = [apW, apZ]"
    by (simp add: pool_voted rnd_explore_def)
  have perm': "mset (rnd_shuffle rnd_explore (preferred_applicants cfg0 1000000 db_voted judge_voted))
                 = mset (preferred_applicants cfg0 1000000 db_voted judge_voted)"
    by (simp add: pool_voted rnd_explore_def)
  have draw': "rnd_random rnd_explore < EPSILON cbt0"
    by (simp add: rnd_explore_def cbt0_def)
  from choose_next_with_reference [OF p perm', of cbt0] draw'
  obtain first rest where
    "rnd_shuffle rnd_explore (preferred_applicants cfg0 1000000 db_voted judge_voted) = first # rest"
    and "choose_next cfg0 cbt0 rnd_explore 1000000 db_voted judge_voted = Inr (Some first)"
    by (auto simp: pool_voted)
  with sh' have res': "choose_next cfg0 cbt0 rnd_explore 1000000 db_voted judge_voted
                         = Inr (Some apW)"
    by simp
  from \<open>c = apZ\<close> p sh res res' show ?thesis by simp
qed



section \<open>Properties of the transitions\<close>

text \<open>
  Claim C7. For a judge whose next item is set \<^verbatim>\<open>maybe_init_annotator\<close> changes
  nothing; for a judge with no next item and a non-empty pool it sets next to a member of
  the pool; and a second run, at any later time and with any random choices, returns the
  state of the first run unchanged.
\<close>

theorem maybe_init_annotator_idempotent:
  assumes cur: "get_current_annotator s uid = Some annotator"
    and ch: "preferred_applicants cfg now s annotator \<noteq> [] \<longrightarrow>
               rnd_choice r (preferred_applicants cfg now s annotator)
                 \<in> set (preferred_applicants cfg now s annotator)"
  shows "(next_of s annotator \<noteq> None \<longrightarrow> maybe_init_annotator cfg r now uid s = Inr s)
       \<and> (next_of s annotator = None \<and> preferred_applicants cfg now s annotator \<noteq> [] \<longrightarrow>
            (\<exists>c s' annotator'. c \<in> set (preferred_applicants cfg now s annotator)
               \<and> maybe_init_annotator cfg r now uid s = Inr s'
               \<and> get_current_annotator s' uid = Some annotator'
               \<and> next_id annotator' = Some (ap_id c)))
       \<and> (\<exists>s'. maybe_init_annotator cfg r now uid s = Inr s'
               \<and> maybe_init_annotator cfg r' now' uid s' = Inr s')"
proof -
  define pool where "pool = preferred_applicants cfg now s annotator"
  have uid: "uid = Some (an_id annotator)"
    using cur by (simp add: get_current_annotator_def Annotator_by_id_Some_id)
  have set_case: "maybe_init_annotator cfg r now uid s = Inr s" if "next_of s annotator \<noteq> None"
    using that cur by (auto simp: maybe_init_annotator_def)
  have empty_case: "maybe_init_annotator cfg r'' now'' uid s = Inr s"
    if "next_of s annotator = None" and "pool = []" for r'' now''
  proof -
    from that(2) have "preferred_applicants cfg now'' s annotator = []"
      unfolding pool_def preferred_applicants_Nil_iff .
    with cur show ?thesis by (simp add: maybe_init_annotator_def)
  qed
  have init_case: "\<exists>c s' annotator'. c \<in> set pool
       \<and> maybe_init_annotator cfg r now uid s = Inr s'
       \<and> get_current_annotator s' uid = Some annotator'
       \<and> next_id annotator' = Some (ap_id c)
       \<and> maybe_init_annotator cfg r' now' uid s' = Inr s'"
    if none: "next_of s annotator = None" and ne: "pool \<noteq> []"
  proof -
    define c where "c = rnd_choice r pool"
    define s' where "s' = update_next now annotator (Some c) s"
    define annotator' where "annotator' = annotator\<lparr>next_id := Some (ap_id c), updated := Some now\<rparr>"
    have mem: "c \<in> set pool"
      using ch ne by (simp add: c_def pool_def)
    then have "c \<in> set (applicants s)"
      unfolding pool_def by (rule preferred_applicants_mem [THEN conjunct1])
    then obtain c0 where c0: "Applicant_by_id s (Some (ap_id c)) = Some c0"
      using Applicant_by_id_of_mem by blast
    have run: "maybe_init_annotator cfg r now uid s = Inr s'"
      using cur none ne by (simp add: maybe_init_annotator_def s'_def c_def pool_def)
    have row: "get_current_annotator s' uid = Some annotator'"
      using cur update_next_Some_annotator [of s annotator annotator now c]
      by (simp add: get_current_annotator_def uid s'_def annotator'_def)
    have "next_of s' annotator' = Some (c0\<lparr>prioritized := False\<rparr>)"
      using update_next_Some_applicant [OF c0, of now annotator]
      by (simp add: next_of_def annotator'_def s'_def)
    then have again: "maybe_init_annotator cfg r' now' uid s' = Inr s'"
      using row by (simp add: maybe_init_annotator_def)
    have "next_id annotator' = Some (ap_id c)"
      by (simp add: annotator'_def)
    with mem run row again show ?thesis by blast
  qed
  have twice: "\<exists>s'. maybe_init_annotator cfg r now uid s = Inr s'
               \<and> maybe_init_annotator cfg r' now' uid s' = Inr s'"
  proof (cases "next_of s annotator = None")
    case False
    then have "maybe_init_annotator cfg r now uid s = Inr s"
      by (rule set_case)
    moreover from False cur have "maybe_init_annotator cfg r' now' uid s = Inr s"
      by (auto simp: maybe_init_annotator_def)
    ultimately show ?thesis by blast
  next
    case True
    show ?thesis
    proof (cases "pool = []")
      case True
      with \<open>next_of s annotator = None\<close> empty_case show ?thesis by blast
    next
      case False
      with \<open>next_of s annotator = None\<close> init_case show ?thesis by blast
    qed
  qed
  show ?thesis
    using set_case init_case twice unfolding pool_def by blast
qed

text \<open>
  The new judge of the example is given the prioritized applicant 30 at time 7; the
  run at time 9 changes nothing.
\<close>

theorem maybe_init_annotator_idempotent_witness:
  "get_current_annotator db_new (Some 1) = Some judge_new
   \<and> preferred_applicants cfg0 7 db_new judge_new = [apP]
   \<and> maybe_init_annotator cfg0 rnd0 7 (Some 1) db_new
       = Inr (update_next 7 judge_new (Some apP) db_new)
   \<and> maybe_init_annotator cfg0 rnd0 9 (Some 1) (update_next 7 judge_new (Some apP) db_new)
       = Inr (update_next 7 judge_new (Some apP) db_new)"
proof -
  have a: "get_current_annotator db_new (Some 1) = Some judge_new"
    by (simp add: get_current_annotator_def Annotator_by_id_def db_new_def judge_new_def)
  have n: "next_of db_new judge_new = None"
    by (simp add: next_of_def Applicant_by_id_def judge_new_def)
  have first: "maybe_init_annotator cfg0 rnd0 7 (Some 1) db_new
                 = Inr (update_next 7 judge_new (Some apP) db_new)"
    using a n by (simp add: maybe_init_annotator_def pool_new rnd0_def)
  have ch: "preferred_applicants cfg0 7 db_new judge_new \<noteq> [] \<longrightarrow>
               rnd_choice rnd0 (preferred_applicants cfg0 7 db_new judge_new)
                 \<in> set (preferred_applicants cfg0 7 db_new judge_new)"
    by (simp add: pool_new rnd0_def)
  from maybe_init_annotator_idempotent [OF a ch, of rnd0 9]
  obtain s' where "maybe_init_annotator cfg0 rnd0 7 (Some 1) db_new = Inr s'"
    and "maybe_init_annotator cfg0 rnd0 9 (Some 1) s' = Inr s'"
    by blast
  with first a show ?thesis by (simp add: pool_new)
qed

text \<open>
  Claim C1. A vote of a judge who has a previous and a next item, with claimed ids that
  are not both the ids of these items, returns the state as it was: no decision is added
  and no row of a judge or of an applicant changes.
\<close>

theorem vote_stale_noop:
  assumes "get_current_annotator s uid = Some annotator"
    and "prev_of s annotator = Some p" and "next_of s annotator = Some n"
    and "f_prev_id frm = IntText claimed_prev" and "f_next_id frm = IntText claimed_next"
    and "(claimed_prev, claimed_next) \<noteq> (ap_id p, ap_id n)"
  shows "vote cfg cbt r now frm uid s = Inr s"
  using assms by (cases "ap_id p = claimed_prev") (auto simp: vote_def)

text \<open>
  The judge of the example is shown applicants 10 and 20; a form that claims 10 and 40
  changes nothing.
\<close>

theorem vote_stale_noop_witness:
  "get_current_annotator db_steady (Some 1) = Some judge_steady
   \<and> prev_of db_steady judge_steady = Some apX \<and> next_of db_steady judge_steady = Some apY
   \<and> vote cfg0 cbt0 rnd0 1000000 form_stale (Some 1) db_steady = Inr db_steady"
proof -
  have a: "get_current_annotator db_steady (Some 1) = Some judge_steady"
    by (simp add: get_current_annotator_def Annotator_by_id_def db_steady_def judge_steady_def)
  have p: "prev_of db_steady judge_steady = Some apX"
    by (simp add: prev_of_def Applicant_by_id_def db_steady_def judge_steady_def apX_def)
  have n: "next_of db_steady judge_steady = Some apY"
    by (simp add: next_of_def Applicant_by_id_def db_steady_def judge_steady_def apX_def apY_def)
  have "vote cfg0 cbt0 rnd0 1000000 form_stale (Some 1) db_steady = Inr db_steady"
    by (rule vote_stale_noop [OF a p n, of form_stale 10 40])
       (simp_all add: form_stale_def apX_def apY_def)
  with a p n show ?thesis by simp
qed

text \<open>
  Claim C3. A vote \<^verbatim>\<open>Previous\<close> or \<^verbatim>\<open>Current\<close> with matching claimed ids,
  when the previous or the next item is no longer active: the transaction succeeds, no
  decision is added, \<^verbatim>\<open>mu\<close> and \<^verbatim>\<open>sigma_sq\<close> of every item and
  \<^verbatim>\<open>alpha\<close> and \<^verbatim>\<open>beta\<close> of the judge are as before; the old next item
  has the judge appended to its views, is the new previous item and is appended to the
  ignore list; the new next item is what \<^verbatim>\<open>choose_next\<close> returns in the state
  where that has been done, in which the reference item is the old next item.
\<close>

theorem vote_inactive_pair:
  fixes annotator :: annotator and n :: applicant and s :: db
  defines "moved \<equiv> annotator\<lparr>prev_id := next_id annotator,
                      ignore := ignore annotator @ [ap_id n]\<rparr>"
    and "seen \<equiv> save_annotator
                    (annotator\<lparr>prev_id := next_id annotator,
                      ignore := ignore annotator @ [ap_id n]\<rparr>)
                    (modify_applicant (ap_id n)
                      (\<lambda>b. b\<lparr>viewed := viewed b @ [an_id annotator]\<rparr>) s)"
  assumes cur: "get_current_annotator s uid = Some annotator"
    and prev: "prev_of s annotator = Some p" and nxt: "next_of s annotator = Some n"
    and fp: "f_prev_id frm = IntText (ap_id p)" and fn: "f_next_id frm = IntText (ap_id n)"
    and act: "f_action frm = Some ''Previous'' \<or> f_action frm = Some ''Current''"
    and inactive: "\<not> (ap_active p \<and> ap_active n)"
  shows "\<exists>new_next s' annotator'.
           prev_of seen moved = Some (n\<lparr>viewed := viewed n @ [an_id annotator]\<rparr>)
         \<and> choose_next cfg cbt r now seen moved = Inr new_next
         \<and> vote cfg cbt r now frm uid s = Inr s'
         \<and> decisions s' = decisions s
         \<and> map mu (applicants s') = map mu (applicants s)
         \<and> map sigma_sq (applicants s') = map sigma_sq (applicants s)
         \<and> map_option viewed (Applicant_by_id s' (Some (ap_id n)))
             = Some (viewed n @ [an_id annotator])
         \<and> get_current_annotator s' uid = Some annotator'
         \<and> alpha annotator' = alpha annotator \<and> beta annotator' = beta annotator
         \<and> prev_id annotator' = Some (ap_id n)
         \<and> ignore annotator' = ignore annotator @ [ap_id n]
         \<and> next_id annotator' = map_option ap_id new_next"
proof -
  define viewed_s where
    "viewed_s = modify_applicant (ap_id n) (\<lambda>b. b\<lparr>viewed := viewed b @ [an_id annotator]\<rparr>) s"
  have seen: "seen = save_annotator moved viewed_s"
    by (simp add: seen_def moved_def viewed_s_def)
  have uid: "uid = Some (an_id annotator)"
    using cur by (simp add: get_current_annotator_def Annotator_by_id_Some_id)
  have nid: "next_id annotator = Some (ap_id n)"
    using nxt by (simp add: next_of_def Applicant_by_id_Some_id)
  have row_n: "Applicant_by_id s (Some (ap_id n)) = Some n"
    using nxt nid by (simp add: next_of_def)
  have moved_id: "an_id moved = an_id annotator"
    by (simp add: moved_def)
  have ref: "prev_of seen moved = Some (n\<lparr>viewed := viewed n @ [an_id annotator]\<rparr>)"
    using Applicant_by_id_modify_self
            [of "\<lambda>b. b\<lparr>viewed := viewed b @ [an_id annotator]\<rparr>" s "ap_id n" n] row_n
    by (simp add: prev_of_def seen viewed_s_def moved_def nid)
  from choose_next_total [OF ref] obtain new_next where
    cn: "choose_next cfg cbt r now seen moved = Inr new_next"
    by blast
  define s' where "s' = update_next now moved new_next seen"
  have not_skip: "''Previous'' \<noteq> ''Skip''" "''Current'' \<noteq> ''Skip''"
    by simp_all
  have off: "(ap_active p \<and> ap_active n) = False"
    using inactive by simp
  have cn': "choose_next cfg cbt r now
               (save_annotator
                 (annotator\<lparr>prev_id := next_id annotator, ignore := ignore annotator @ [ap_id n]\<rparr>)
                 (modify_applicant (ap_id n)
                   (\<lambda>b. b\<lparr>viewed := viewed b @ [an_id annotator]\<rparr>) s))
               (annotator\<lparr>prev_id := next_id annotator, ignore := ignore annotator @ [ap_id n]\<rparr>)
             = Inr new_next"
    using cn by (simp add: seen_def moved_def)
  have run: "vote cfg cbt r now frm uid s = Inr s'"
    using act
  proof
    assume a: "f_action frm = Some ''Previous''"
    show ?thesis
      by (simp add: vote_def Let_def cur prev nxt fp fn a off cn' s'_def seen_def moved_def)
  next
    assume a: "f_action frm = Some ''Current''"
    show ?thesis
      by (simp add: vote_def Let_def cur prev nxt fp fn a off cn' s'_def seen_def moved_def)
  qed
  have dec: "decisions s' = decisions s"
    by (simp add: s'_def seen viewed_s_def)
  have mus: "map mu (applicants s') = map mu (applicants s)"
    by (simp add: s'_def seen viewed_s_def map_applicants_update_next map_applicants_modify)
  have sigmas: "map sigma_sq (applicants s') = map sigma_sq (applicants s)"
    by (simp add: s'_def seen viewed_s_def map_applicants_update_next map_applicants_modify)
  have "Applicant_by_id seen (Some (ap_id n)) = Some (n\<lparr>viewed := viewed n @ [an_id annotator]\<rparr>)"
    using ref by (simp add: prev_of_def moved_def nid)
  then have views: "map_option viewed (Applicant_by_id s' (Some (ap_id n)))
                      = Some (viewed n @ [an_id annotator])"
    by (simp add: s'_def viewed_update_next)
  have "Annotator_by_id viewed_s (Some (an_id moved)) = Some annotator"
    using cur by (simp add: get_current_annotator_def uid viewed_s_def moved_id)
  then have "Annotator_by_id seen (Some (an_id moved)) = Some moved"
    unfolding seen by (rule Annotator_by_id_save_self)
  from update_next_annotator_row [OF this, of now new_next]
  obtain annotator' where
    row: "Annotator_by_id s' (Some (an_id moved)) = Some annotator'"
    and fields: "prev_id annotator' = prev_id moved" "ignore annotator' = ignore moved"
      "alpha annotator' = alpha moved" "beta annotator' = beta moved"
      "next_id annotator' = map_option ap_id new_next"
    unfolding s'_def by blast
  have "get_current_annotator s' uid = Some annotator'"
    using row by (simp add: get_current_annotator_def uid moved_id)
  moreover have "prev_id annotator' = Some (ap_id n)"
    "ignore annotator' = ignore annotator @ [ap_id n]"
    "alpha annotator' = alpha annotator" "beta annotator' = beta annotator"
    using fields by (simp_all add: moved_def nid)
  ultimately show ?thesis
    using ref cn run dec mus sigmas views fields(5) by blast
qed

text \<open>
  The judge of the example votes \<^verbatim>\<open>Current\<close> on applicants 10 and 20 after
  applicant 20 has been deactivated.
\<close>

theorem vote_inactive_pair_witness:
  "get_current_annotator db_deactivated (Some 1) = Some judge_steady
   \<and> prev_of db_deactivated judge_steady = Some apX
   \<and> next_of db_deactivated judge_steady = Some apY_off
   \<and> ap_active apY_off = False
   \<and> vote cfg0 cbt0 rnd0 1000000 form_current (Some 1) db_deactivated = Inr db_after_vote
   \<and> decisions db_after_vote = decisions db_deactivated
   \<and> map mu (applicants db_after_vote) = map mu (applicants db_deactivated)"
proof -
  have off: "\<not> (ap_active apX \<and> ap_active apY_off)"
    by (simp add: apY_off_def)
  have fp: "f_prev_id form_current = IntText (ap_id apX)"
    and fn: "f_next_id form_current = IntText (ap_id apY_off)"
    and act: "f_action form_current = Some ''Previous'' \<or> f_action form_current = Some ''Current''"
    by (simp_all add: form_current_def apX_def apY_off_def)
  from vote_inactive_pair [OF steady_rows fp fn act off, of cfg0 cbt0 rnd0 1000000]
  obtain s' where "vote cfg0 cbt0 rnd0 1000000 form_current (Some 1) db_deactivated = Inr s'"
    and "decisions s' = decisions db_deactivated"
    and "map mu (applicants s') = map mu (applicants db_deactivated)"
    by blast
  then show ?thesis
    using steady_rows by (simp add: vote_example apY_off_def)
qed

text \<open>
  Claim C6. The transaction of \<^verbatim>\<open>begin\<close> for a judge whose next item is X, with a
  matching claimed id, where the shuffle rearranges its list. \<^verbatim>\<open>Continue\<close>: X has
  the judge appended to its views, is the previous item and is appended to the ignore
  list; the new next item is what \<^verbatim>\<open>choose_next\<close> returns in the state where that
  has been done, with X as reference item, and if there is one it is in the pool of that
  state and is neither X nor another ignored item. \<^verbatim>\<open>Skip\<close>: X is appended to the
  ignore list, next is none, and nothing else changes. This holds in particular in the
  state where the judge has no previous item.
\<close>

theorem begin_continue_skip:
  fixes annotator :: annotator and n :: applicant and s :: db
  defines "moved \<equiv> annotator\<lparr>ignore := ignore annotator @ [ap_id n],
                      prev_id := next_id annotator\<rparr>"
    and "seen \<equiv> save_annotator
                    (annotator\<lparr>ignore := ignore annotator @ [ap_id n],
                      prev_id := next_id annotator\<rparr>)
                    (modify_applicant (ap_id n)
                      (\<lambda>b. b\<lparr>viewed := viewed b @ [an_id annotator]\<rparr>)
                      (save_annotator (annotator\<lparr>ignore := ignore annotator @ [ap_id n]\<rparr>) s))"
  assumes cur: "get_current_annotator s uid = Some annotator"
    and nxt: "next_of s annotator = Some n"
    and claimed: "int_of_get (get_or (f_applicant_id frm) (f_item_id frm)) = Inr (ap_id n)"
    and perm: "\<forall>xs. mset (rnd_shuffle r xs) = mset xs"
  shows "(f_action frm = Some ''Continue'' \<longrightarrow>
           (\<exists>new_next s' annotator'.
               prev_of seen moved = Some (n\<lparr>viewed := viewed n @ [an_id annotator]\<rparr>)
             \<and> choose_next cfg cbt r now seen moved = Inr new_next
             \<and> (\<forall>c. new_next = Some c \<longrightarrow>
                    c \<in> set (preferred_applicants cfg now seen moved)
                  \<and> ap_id c \<notin> set (ignore annotator @ [ap_id n]))
             \<and> begin_tx cfg cbt r now frm uid s = Inr s'
             \<and> map_option viewed (Applicant_by_id s' (Some (ap_id n)))
                 = Some (viewed n @ [an_id annotator])
             \<and> get_current_annotator s' uid = Some annotator'
             \<and> prev_id annotator' = Some (ap_id n)
             \<and> ignore annotator' = ignore annotator @ [ap_id n]
             \<and> next_id annotator' = map_option ap_id new_next))
       \<and> (f_action frm = Some ''Skip'' \<longrightarrow>
           (\<exists>s'. begin_tx cfg cbt r now frm uid s = Inr s'
             \<and> get_current_annotator s' uid
                 = Some (annotator\<lparr>next_id := None, ignore := ignore annotator @ [ap_id n]\<rparr>)
             \<and> applicants s' = applicants s \<and> decisions s' = decisions s))"
proof -
  define ignored where "ignored = annotator\<lparr>ignore := ignore annotator @ [ap_id n]\<rparr>"
  define s1 where "s1 = save_annotator ignored s"
  define s2 where
    "s2 = modify_applicant (ap_id n) (\<lambda>b. b\<lparr>viewed := viewed b @ [an_id annotator]\<rparr>) s1"
  have seen: "seen = save_annotator moved s2"
    by (simp add: seen_def moved_def s2_def s1_def ignored_def)
  have uid: "uid = Some (an_id annotator)"
    using cur by (simp add: get_current_annotator_def Annotator_by_id_Some_id)
  have nid: "next_id annotator = Some (ap_id n)"
    using nxt by (simp add: next_of_def Applicant_by_id_Some_id)
  have row_n: "Applicant_by_id s (Some (ap_id n)) = Some n"
    using nxt nid by (simp add: next_of_def)
  have ids: "an_id moved = an_id annotator" "an_id ignored = an_id annotator"
    by (simp_all add: moved_def ignored_def)
  have row1: "Annotator_by_id s1 (Some (an_id annotator)) = Some ignored"
    using Annotator_by_id_save_self [of s ignored annotator] cur
    by (simp add: get_current_annotator_def uid s1_def ids)
  have continue: "\<exists>new_next s' annotator'.
               prev_of seen moved = Some (n\<lparr>viewed := viewed n @ [an_id annotator]\<rparr>)
             \<and> choose_next cfg cbt r now seen moved = Inr new_next
             \<and> (\<forall>c. new_next = Some c \<longrightarrow>
                    c \<in> set (preferred_applicants cfg now seen moved)
                  \<and> ap_id c \<notin> set (ignore annotator @ [ap_id n]))
             \<and> begin_tx cfg cbt r now frm uid s = Inr s'
             \<and> map_option viewed (Applicant_by_id s' (Some (ap_id n)))
                 = Some (viewed n @ [an_id annotator])
             \<and> get_current_annotator s' uid = Some annotator'
             \<and> prev_id annotator' = Some (ap_id n)
             \<and> ignore annotator' = ignore annotator @ [ap_id n]
             \<and> next_id annotator' = map_option ap_id new_next"
    if act: "f_action frm = Some ''Continue''"
  proof -
    have row_seen: "Applicant_by_id seen (Some (ap_id n))
                      = Some (n\<lparr>viewed := viewed n @ [an_id annotator]\<rparr>)"
      using Applicant_by_id_modify_self
              [of "\<lambda>b. b\<lparr>viewed := viewed b @ [an_id annotator]\<rparr>" s1 "ap_id n" n] row_n
      by (simp add: seen s2_def s1_def)
    then have ref: "prev_of seen moved = Some (n\<lparr>viewed := viewed n @ [an_id annotator]\<rparr>)"
      by (simp add: prev_of_def moved_def nid)
    from choose_next_total [OF ref] obtain new_next where
      cn: "choose_next cfg cbt r now seen moved = Inr new_next"
      by blast
    define s' where "s' = update_next now moved new_next seen"
    have run: "begin_tx cfg cbt r now frm uid s = Inr s'"
      using cn unfolding s'_def seen_def moved_def
      by (simp add: begin_tx_def Let_def cur nxt claimed act split: sum.split)
    have chosen: "c \<in> set (preferred_applicants cfg now seen moved)
                  \<and> ap_id c \<notin> set (ignore annotator @ [ap_id n])"
      if "new_next = Some c" for c
    proof -
      from cn that have "c \<in> set (rnd_shuffle r (preferred_applicants cfg now seen moved))"
        by (simp add: choose_next_mem)
      moreover have "set (rnd_shuffle r (preferred_applicants cfg now seen moved))
                       = set (preferred_applicants cfg now seen moved)"
        using perm by (metis mset_eq_setD)
      ultimately have mem: "c \<in> set (preferred_applicants cfg now seen moved)"
        by simp
      from preferred_applicants_mem [OF mem] show ?thesis
        using mem by (simp add: moved_def)
    qed
    have views: "map_option viewed (Applicant_by_id s' (Some (ap_id n)))
                   = Some (viewed n @ [an_id annotator])"
      using row_seen by (simp add: s'_def viewed_update_next)
    have "Annotator_by_id s2 (Some (an_id moved)) = Some ignored"
      using row1 by (simp add: s2_def ids)
    then have "Annotator_by_id seen (Some (an_id moved)) = Some moved"
      unfolding seen by (rule Annotator_by_id_save_self)
    from update_next_annotator_row [OF this, of now new_next]
    obtain annotator' where
      row: "Annotator_by_id s' (Some (an_id moved)) = Some annotator'"
      and fields: "prev_id annotator' = prev_id moved" "ignore annotator' = ignore moved"
        "next_id annotator' = map_option ap_id new_next"
      unfolding s'_def by blast
    have "get_current_annotator s' uid = Some annotator'"
      using row by (simp add: get_current_annotator_def uid ids)
    moreover have "prev_id annotator' = Some (ap_id n)"
      "ignore annotator' = ignore annotator @ [ap_id n]"
      using fields by (simp_all add: moved_def nid)
    ultimately show ?thesis
      using ref cn chosen run views fields(3) by blast
  qed
  have skip: "\<exists>s'. begin_tx cfg cbt r now frm uid s = Inr s'
             \<and> get_current_annotator s' uid
                 = Some (annotator\<lparr>next_id := None, ignore := ignore annotator @ [ap_id n]\<rparr>)
             \<and> applicants s' = applicants s \<and> decisions s' = decisions s"
    if act: "f_action frm = Some ''Skip''"
  proof -
    define s' where "s' = save_annotator (ignored\<lparr>next_id := None\<rparr>) s1"
    have run: "begin_tx cfg cbt r now frm uid s = Inr s'"
      by (simp add: begin_tx_def Let_def cur nxt claimed act s'_def s1_def ignored_def)
    have "Annotator_by_id s' (Some (an_id (ignored\<lparr>next_id := None\<rparr>)))
            = Some (ignored\<lparr>next_id := None\<rparr>)"
      unfolding s'_def using row1 by (intro Annotator_by_id_save_self [of _ _ ignored]) (simp add: ids)
    then have "get_current_annotator s' uid
                 = Some (annotator\<lparr>next_id := None, ignore := ignore annotator @ [ap_id n]\<rparr>)"
      by (simp add: get_current_annotator_def uid ignored_def)
    moreover have "applicants s' = applicants s" "decisions s' = decisions s"
      by (simp_all add: s'_def s1_def)
    ultimately show ?thesis using run by blast
  qed
  show ?thesis using continue skip by blast
qed

text \<open>
  The judge of the example, shown applicant 10 first, continues and is given applicant
  20; had the judge skipped, applicant 10 would be ignored and no item assigned.
\<close>

theorem begin_continue_skip_witness:
  "get_current_annotator db_begin (Some 1) = Some judge_begin
   \<and> next_of db_begin judge_begin = Some apX
   \<and> begin_tx cfg0 cbt0 rnd0 1000000 form_continue (Some 1) db_begin = Inr db_after_continue
   \<and> map_option viewed (Applicant_by_id db_after_continue (Some 10)) = Some [1]
   \<and> begin_tx cfg0 cbt0 rnd0 1000000 form_skip (Some 1) db_begin = Inr db_after_skip
   \<and> applicants db_after_skip = applicants db_begin
   \<and> get_current_annotator db_after_skip (Some 1)
       = Some (judge_begin\<lparr>next_id := None, ignore := [10]\<rparr>)"
proof -
  have perm: "\<forall>xs. mset (rnd_shuffle rnd0 xs) = mset xs"
    by (simp add: rnd0_def)
  have c1: "int_of_get (get_or (f_applicant_id form_continue) (f_item_id form_continue))
              = Inr (ap_id apX)"
    and c2: "int_of_get (get_or (f_applicant_id form_skip) (f_item_id form_skip))
              = Inr (ap_id apX)"
    by (simp_all add: form_continue_def form_skip_def apX_def)
  have a1: "f_action form_continue = Some ''Continue''" and a2: "f_action form_skip = Some ''Skip''"
    by (simp_all add: form_continue_def form_skip_def)
  from begin_continue_skip [OF begin_rows c1 perm, of cfg0 cbt0 1000000] a1
  obtain s' where "begin_tx cfg0 cbt0 rnd0 1000000 form_continue (Some 1) db_begin = Inr s'"
    and "map_option viewed (Applicant_by_id s' (Some (ap_id apX)))
           = Some (viewed apX @ [an_id judge_begin])"
    by blast
  then have v: "map_option viewed (Applicant_by_id db_after_continue (Some 10)) = Some [1]"
    by (simp add: begin_continue_example apX_def judge_begin_def)
  from begin_continue_skip [OF begin_rows c2 perm, of cfg0 cbt0 1000000] a2
  obtain s'' where "begin_tx cfg0 cbt0 rnd0 1000000 form_skip (Some 1) db_begin = Inr s''"
    and "get_current_annotator s'' (Some 1)
           = Some (judge_begin\<lparr>next_id := None, ignore := ignore judge_begin @ [ap_id apX]\<rparr>)"
    and "applicants s'' = applicants db_begin"
    by blast
  then have k: "applicants db_after_skip = applicants db_begin"
    "get_current_annotator db_after_skip (Some 1)
       = Some (judge_begin\<lparr>next_id := None, ignore := [10]\<rparr>)"
    by (simp_all add: begin_skip_example apX_def judge_begin_def)
  from begin_rows begin_continue_example begin_skip_example v k show ?thesis
    by simp
qed

end
